theory Spec2Isabelle
  imports Complex_Main "HOL-Library.Sublist"
begin

section \<open>Path strings (posixpath)\<close>

text \<open>
  Paths are Python strings; the separator is the slash. A resolved path
  (\<open>Path(p).expanduser().resolve()\<close>) is absolute and normalised, so it is given by the
  list of its components and \<open>path_str\<close> is its string.
\<close>

definition sep :: char where
  "sep = CHR ''/''"

definition valid_name :: "string \<Rightarrow> bool" where
  "valid_name s = (s \<noteq> [] \<and> sep \<notin> set s \<and> s \<noteq> ''.'' \<and> s \<noteq> ''..'')"

text \<open>\<open>str.split('/')\<close>: the pieces between separators, empty pieces included.\<close>

fun split_sep :: "string \<Rightarrow> string list" where
  "split_sep [] = [[]]"
| "split_sep (c # cs) =
     (if c = sep then [] # split_sep cs
      else (case split_sep cs of [] \<Rightarrow> [[c]] | p # ps \<Rightarrow> (c # p) # ps))"

text \<open>\<open>'/'.join(parts)\<close>.\<close>

fun join_sep :: "string list \<Rightarrow> string" where
  "join_sep [] = []"
| "join_sep [p] = p"
| "join_sep (p # q # ps) = p @ sep # join_sep (q # ps)"

definition path_str :: "string list \<Rightarrow> string" where
  "path_str segs = (if segs = [] then [sep] else concat (map (\<lambda>s. sep # s) segs))"

text \<open>\<open>os.path.join(a, b)\<close> for two arguments.\<close>

definition os_path_join :: "string \<Rightarrow> string \<Rightarrow> string" where
  "os_path_join a b =
     (if b \<noteq> [] \<and> hd b = sep then b
      else if a = [] \<or> last a = sep then a @ b
      else a @ sep # b)"

text \<open>
  The component loop of \<open>os.path.normpath\<close> on an absolute path: empty components and
  \<open>.\<close> are skipped, \<open>..\<close> removes the component before it and is dropped at the root.
  \<open>acc\<close> is \<open>new_comps\<close>.
\<close>

fun norm_comps :: "string list \<Rightarrow> string list \<Rightarrow> string list" where
  "norm_comps acc [] = acc"
| "norm_comps acc (c # cs) =
     (if c = [] \<or> c = ''.'' then norm_comps acc cs
      else if c = ''..'' then norm_comps (butlast acc) cs
      else norm_comps (acc @ [c]) cs)"

text \<open>The components of \<open>os.path.abspath(p)\<close> for an absolute \<open>p\<close>.\<close>

definition abs_comps :: "string \<Rightarrow> string list" where
  "abs_comps p = norm_comps [] (split_sep p)"

text \<open>The length of \<open>os.path.commonprefix([xs, ys])\<close> on two component lists.\<close>

fun common_len :: "string list \<Rightarrow> string list \<Rightarrow> nat" where
  "common_len (x # xs) (y # ys) = (if x = y then Suc (common_len xs ys) else 0)"
| "common_len _ _ = 0"

text \<open>
  \<open>os.path.relpath(path, start)\<close>, both absolute (the only call passes the resolved
  source path and a path built from it by \<open>os.path.join\<close>).
\<close>

definition os_path_relpath :: "string \<Rightarrow> string \<Rightarrow> string" where
  "os_path_relpath path start =
     (let start_list = abs_comps start;
          path_list = abs_comps path;
          i = common_len start_list path_list;
          rel_list = replicate (length start_list - i) ''..'' @ drop i path_list
      in if rel_list = [] then ''.'' else join_sep rel_list)"

section \<open>Shell patterns (fnmatch)\<close>

text \<open>
  \<open>fnmatch.fnmatch(name, pat)\<close> compiles the pattern (\<open>fnmatch.translate\<close>, as in
  CPython 3.9 to 3.12) and matches the whole name: \<open>*\<close> is any run of characters, the
  separator included, \<open>?\<close> is one character, \<open>[seq]\<close> and \<open>[!seq]\<close> are character sets
  with ranges \<open>a-z\<close>, and a \<open>[\<close> that is never closed stands for itself. Strings are over
  the code points below 256.
\<close>

datatype tok = Star | AnyChar | Lit char | CharSet bool "(char \<times> char) list"

text \<open>
  The scan for the closing bracket: \<open>j\<close> skips a leading \<open>!\<close>, then a leading \<open>]\<close>,
  then runs to the next \<open>]\<close>. The result is \<open>stuff\<close>, the text between the brackets, and
  what follows the closing bracket.
\<close>

fun upto_close :: "string \<Rightarrow> (string \<times> string) option" where
  "upto_close [] = None"
| "upto_close (c # cs) =
     (if c = CHR '']'' then Some ([], cs)
      else (case upto_close cs of None \<Rightarrow> None | Some (b, r) \<Rightarrow> Some (c # b, r)))"

definition scan_set :: "string \<Rightarrow> (string \<times> string) option" where
  "scan_set s =
     (let neg = (s \<noteq> [] \<and> hd s = CHR ''!'');
          s1 = (if neg then tl s else s);
          lead = (s1 \<noteq> [] \<and> hd s1 = CHR '']'');
          s2 = (if lead then tl s1 else s1)
      in case upto_close s2 of
           None \<Rightarrow> None
         | Some (b, r) \<Rightarrow> Some ((if neg then ''!'' else []) @ (if lead then '']'' else []) @ b, r))"

text \<open>
  When \<open>stuff\<close> holds a hyphen it is cut into chunks at the hyphens that stand for a
  range: the search for the first starts one character in (two after a leading \<open>!\<close>),
  the search for each next one two characters after the hyphen before it. \<open>skip\<close> is the
  number of characters still to pass and \<open>acc\<close> the chunk so far. A hyphen at the very end
  goes to the last chunk.
\<close>

fun chunks_of :: "nat \<Rightarrow> string \<Rightarrow> string \<Rightarrow> string list" where
  "chunks_of skip acc [] = [acc]"
| "chunks_of skip acc (c # cs) =
     (if skip = 0 \<and> c = CHR ''-'' then acc # chunks_of 2 [] cs
      else chunks_of (skip - 1) (acc @ [c]) cs)"

definition fix_last :: "string list \<Rightarrow> string list" where
  "fix_last chunks =
     (if last chunks = [] \<and> butlast chunks \<noteq> []
      then butlast (butlast chunks) @ [last (butlast chunks) @ ''-'']
      else chunks)"

text \<open>
  Empty ranges are removed, from the last pair of chunks to the first: where the end of a
  chunk is above the start of the next, both characters go and the two chunks are joined.
\<close>

fun merge_ranges :: "string list \<Rightarrow> string list" where
  "merge_ranges [] = []"
| "merge_ranges [c] = [c]"
| "merge_ranges (c # d # ds) =
     (case merge_ranges (d # ds) of
        [] \<Rightarrow> [c]
      | e # es \<Rightarrow>
          (if c \<noteq> [] \<and> e \<noteq> [] \<and> (of_char (hd e) :: nat) < of_char (last c)
           then (butlast c @ tl e) # es
           else c # e # es))"

text \<open>
  The members of the set the chunks stand for: between two chunks there is a range from
  the last character of the one to the first of the other, every other character stands
  for itself (a hyphen inside a chunk too).
\<close>

fun set_items :: "string list \<Rightarrow> (char \<times> char) list" where
  "set_items [] = []"
| "set_items [c] = map (\<lambda>x. (x, x)) c"
| "set_items (c # d # ds) =
     (if c = [] \<or> d = [] then map (\<lambda>x. (x, x)) (c @ ''-'') @ set_items (d # ds)
      else map (\<lambda>x. (x, x)) (butlast c) @ (last c, hd d) # set_items (tl d # ds))"

text \<open>
  The token for \<open>[stuff]\<close>: nothing left is a set that matches no character, a lone \<open>!\<close>
  matches any character, a leading \<open>!\<close> negates the set.
\<close>

definition set_tok :: "string \<Rightarrow> tok" where
  "set_tok stuff =
     (let chunks =
            (if CHR ''-'' \<in> set stuff
             then merge_ranges (fix_last (chunks_of (if hd stuff = CHR ''!'' then 2 else 1) [] stuff))
             else [stuff])
      in if chunks = [[]] then CharSet False []
         else if chunks = [''!''] then AnyChar
         else if hd chunks \<noteq> [] \<and> hd (hd chunks) = CHR ''!''
           then CharSet True (set_items (tl (hd chunks) # tl chunks))
         else CharSet False (set_items chunks))"

lemma upto_close_shorter: "upto_close s = Some (b, r) \<Longrightarrow> length r < length s"
  by (induction s arbitrary: b r) (auto split: if_splits option.splits)

lemma scan_set_shorter: "scan_set s = Some (stuff, r) \<Longrightarrow> length r < Suc (length s)"
  by (cases s; cases "tl s")
     (auto simp: scan_set_def Let_def split: if_splits option.splits dest!: upto_close_shorter)

function translate :: "string \<Rightarrow> tok list" where
  "translate [] = []"
| "translate (c # cs) =
     (if c = CHR ''*'' then Star # translate cs
      else if c = CHR ''?'' then AnyChar # translate cs
      else if c = CHR ''['' then
        (case scan_set cs of
           None \<Rightarrow> Lit c # translate cs
         | Some (stuff, r) \<Rightarrow> set_tok stuff # translate r)
      else Lit c # translate cs)"
  by pat_completeness auto
termination
  by (relation "measure length") (auto dest: scan_set_shorter)

definition in_items :: "char \<Rightarrow> (char \<times> char) list \<Rightarrow> bool" where
  "in_items c items = list_ex (\<lambda>(lo, hi). of_char lo \<le> (of_char c :: nat) \<and> (of_char c :: nat) \<le> of_char hi) items"

fun tok_ok :: "tok \<Rightarrow> char \<Rightarrow> bool" where
  "tok_ok Star c = True"
| "tok_ok AnyChar c = True"
| "tok_ok (Lit l) c = (l = c)"
| "tok_ok (CharSet neg items) c = (in_items c items \<noteq> neg)"

fun match_toks :: "tok list \<Rightarrow> string \<Rightarrow> bool" where
  "match_toks [] s = (s = [])"
| "match_toks (Star # ts) [] = match_toks ts []"
| "match_toks (Star # ts) (c # cs) = (match_toks ts (c # cs) \<or> match_toks (Star # ts) cs)"
| "match_toks (t # ts) [] = False"
| "match_toks (t # ts) (c # cs) = (tok_ok t c \<and> match_toks ts cs)"

definition fnmatch :: "string \<Rightarrow> string \<Rightarrow> bool" where
  "fnmatch name pat = match_toks (translate pat) name"

section \<open>The filesystem\<close>

text \<open>
  A file carries what the three operations read of it: its data, \<open>st_size\<close>,
  \<open>st_mtime\<close> (seconds, an exact rational here where Python has a float), whether it can
  be opened for reading and whether \<open>os.remove\<close> succeeds on it. A directory lists its
  entries in the order \<open>os.scandir\<close> yields them. Symbolic links are not modelled.
\<close>

datatype fdata = Bytes string | Zip "(string \<times> fdata) list"

record finfo =
  f_data :: fdata
  f_size :: nat
  f_mtime :: rat
  f_readable :: bool
  f_removable :: bool

datatype node = File finfo | Dir "(string \<times> node) list"

fun is_dir_node :: "node \<Rightarrow> bool" where
  "is_dir_node (Dir es) = True"
| "is_dir_node (File i) = False"

fun lookup :: "node \<Rightarrow> string list \<Rightarrow> node option" where
  "lookup n [] = Some n"
| "lookup (File i) (s # ss) = None"
| "lookup (Dir es) (s # ss) = (case map_of es s of None \<Rightarrow> None | Some c \<Rightarrow> lookup c ss)"

definition exists :: "node \<Rightarrow> string list \<Rightarrow> bool" where
  "exists fs p = (lookup fs p \<noteq> None)"

definition is_dir :: "node \<Rightarrow> string list \<Rightarrow> bool" where
  "is_dir fs p = (case lookup fs p of Some (Dir es) \<Rightarrow> True | _ \<Rightarrow> False)"

definition is_file :: "node \<Rightarrow> string list \<Rightarrow> bool" where
  "is_file fs p = (case lookup fs p of Some (File i) \<Rightarrow> True | _ \<Rightarrow> False)"

text \<open>
  Setting or deleting one entry of a directory: an existing entry keeps its place, a new
  one comes last.
\<close>

definition put_entry :: "string \<Rightarrow> node option \<Rightarrow> (string \<times> node) list \<Rightarrow> (string \<times> node) list" where
  "put_entry s v es =
     (case v of
        None \<Rightarrow> filter (\<lambda>e. fst e \<noteq> s) es
      | Some n \<Rightarrow>
          (if map_of es s = None then es @ [(s, n)]
           else map (\<lambda>e. if fst e = s then (s, n) else e) es))"

text \<open>
  \<open>store p v fs\<close> puts \<open>v\<close> at path \<open>p\<close> (\<open>None\<close> deletes); it does nothing when the
  parent of \<open>p\<close> is not a directory of \<open>fs\<close>.
\<close>

fun store :: "string list \<Rightarrow> node option \<Rightarrow> node \<Rightarrow> node" where
  "store [] v n = (case v of None \<Rightarrow> n | Some n' \<Rightarrow> n')"
| "store (s # ss) v (File i) = File i"
| "store (s # ss) v (Dir es) =
     (if ss = [] then Dir (put_entry s v es)
      else (case map_of es s of
              None \<Rightarrow> Dir es
            | Some c \<Rightarrow> Dir (put_entry s (Some (store ss v c)) es)))"

section \<open>Exceptions\<close>

text \<open>
  The exceptions the operations and the library calls below raise. Each is a subclass of
  Python's \<open>Exception\<close>, which is what the three \<open>except Exception\<close> handlers catch.
\<close>

datatype exn =
    FileNotFoundError | FileExistsError | NotADirectoryError | IsADirectoryError
  | PermissionError | ShutilError | ValueError | NotImplementedError | IndexError | StructError

text \<open>\<open>os.makedirs(p, exist_ok=True)\<close>: a failure leaves the filesystem as it was.\<close>

fun makedirs_node :: "string list \<Rightarrow> node \<Rightarrow> exn + node" where
  "makedirs_node [] (Dir es) = Inr (Dir es)"
| "makedirs_node [] (File i) = Inl FileExistsError"
| "makedirs_node (s # ss) (File i) = Inl NotADirectoryError"
| "makedirs_node (s # ss) (Dir es) =
     (case makedirs_node ss (case map_of es s of None \<Rightarrow> Dir [] | Some c \<Rightarrow> c) of
        Inl e \<Rightarrow> Inl e
      | Inr c' \<Rightarrow> Inr (Dir (put_entry s (Some c') es)))"

definition os_makedirs :: "node \<Rightarrow> string list \<Rightarrow> exn + node" where
  "os_makedirs fs p = makedirs_node p fs"

text \<open>Opening \<open>p\<close> for writing (mode \<open>w\<close>) creates or truncates the file.\<close>

definition open_write :: "node \<Rightarrow> string list \<Rightarrow> finfo \<Rightarrow> exn + node" where
  "open_write fs p i =
     (if p = [] then Inl IsADirectoryError
      else (case lookup fs (butlast p) of
              None \<Rightarrow> Inl FileNotFoundError
            | Some (File j) \<Rightarrow> Inl NotADirectoryError
            | Some (Dir es) \<Rightarrow>
                (if is_dir fs p then Inl IsADirectoryError
                 else Inr (store p (Some (File i)) fs))))"

text \<open>
  \<open>pathlib\<close>: the components of a string (empty ones and \<open>.\<close> are dropped), \<open>p / s\<close>,
  and \<open>p.name\<close>. A component \<open>..\<close> stays in the path, as in \<open>pathlib\<close>; \<open>lookup\<close> has no
  entry of that name and does not go up, so the statements below that depend on it are
  made for paths without \<open>..\<close>.
\<close>

definition pure_parts :: "string \<Rightarrow> string list" where
  "pure_parts s = filter (\<lambda>c. c \<noteq> [] \<and> c \<noteq> ''.'') (split_sep s)"

definition path_div :: "string list \<Rightarrow> string \<Rightarrow> string list" where
  "path_div p s = (if s \<noteq> [] \<and> hd s = sep then pure_parts s else p @ pure_parts s)"

definition path_name :: "string list \<Rightarrow> string" where
  "path_name p = (if p = [] then [] else last p)"

definition endswith :: "string \<Rightarrow> string \<Rightarrow> bool" where
  "endswith s suf = suffix suf s"

section \<open>backup_directory\<close>

text \<open>
  \<open>exclude_patterns and any(fnmatch(path, pattern) for pattern in exclude_patterns)\<close>;
  \<open>None\<close> is the empty list.
\<close>

definition excluded :: "string list \<Rightarrow> string \<Rightarrow> bool" where
  "excluded exclude_patterns p =
     (exclude_patterns \<noteq> [] \<and> list_ex (\<lambda>pattern. fnmatch p pattern) exclude_patterns)"

text \<open>
  \<open>os.walk(top)\<close>, top-down, with the loop body's in-place pruning of \<open>dirs\<close>: each
  triple is the directory's path, the subdirectories kept and the files; the walk then
  descends into the kept subdirectories only. Walking a file yields nothing.
\<close>

fun walk :: "string list \<Rightarrow> string \<Rightarrow> node \<Rightarrow> (string \<times> string list \<times> (string \<times> finfo) list) list"
and walk_dirs :: "string list \<Rightarrow> string \<Rightarrow> (string \<times> node) list \<Rightarrow> (string \<times> string list \<times> (string \<times> finfo) list) list"
where
  "walk pats root_dir (File i) = []"
| "walk pats root_dir (Dir es) =
     (root_dir,
      [fst e. e \<leftarrow> es, is_dir_node (snd e), \<not> excluded pats (os_path_join root_dir (fst e))],
      concat (map (\<lambda>e. case snd e of File i \<Rightarrow> [(fst e, i)] | Dir _ \<Rightarrow> []) es))
     # walk_dirs pats root_dir es"
| "walk_dirs pats root_dir [] = []"
| "walk_dirs pats root_dir ((d, c) # es) =
     (if is_dir_node c \<and> \<not> excluded pats (os_path_join root_dir d)
      then walk pats (os_path_join root_dir d) c else [])
     @ walk_dirs pats root_dir es"

text \<open>
  The inner loop over the files of one directory. \<open>zipf.write\<close> first takes the entry's
  date from \<open>st_mtime\<close> and refuses a year before 1980 (\<open>ValueError\<close>), then opens the
  file for reading, then packs the header, which fails for a year after 2107
  (\<open>struct.error\<close>). The local time is taken to be UTC: 1980 begins at 315532800 and 2108
  at 4354819200. When one of the three fails the loop stops with the entries written so
  far.
\<close>

fun zip_files :: "string list \<Rightarrow> string \<Rightarrow> string \<Rightarrow> (string \<times> finfo) list \<Rightarrow> (string \<times> fdata) list
    \<Rightarrow> exn option \<times> (string \<times> fdata) list" where
  "zip_files pats source root_dir [] zipf = (None, zipf)"
| "zip_files pats source root_dir ((file, i) # files) zipf =
     (let file_path = os_path_join root_dir file in
      if excluded pats file_path then zip_files pats source root_dir files zipf
      else
        (let arcname = os_path_relpath file_path source in
         if f_mtime i < 315532800 then (Some ValueError, zipf)
         else if \<not> f_readable i then (Some PermissionError, zipf)
         else if 4354819200 \<le> f_mtime i then (Some StructError, zipf)
         else zip_files pats source root_dir files (zipf @ [(arcname, f_data i)])))"

fun zip_walk :: "string list \<Rightarrow> string \<Rightarrow> (string \<times> string list \<times> (string \<times> finfo) list) list
    \<Rightarrow> (string \<times> fdata) list \<Rightarrow> exn option \<times> (string \<times> fdata) list" where
  "zip_walk pats source [] zipf = (None, zipf)"
| "zip_walk pats source ((root_dir, dirs, files) # rest) zipf =
     (case zip_files pats source root_dir files zipf of
        (Some e, zipf') \<Rightarrow> (Some e, zipf')
      | (None, zipf') \<Rightarrow> zip_walk pats source rest zipf')"

text \<open>The entries the zip branch writes for a source tree, and the first error.\<close>

definition zip_entries :: "string list \<Rightarrow> string list \<Rightarrow> node \<Rightarrow> exn option \<times> (string \<times> fdata) list" where
  "zip_entries pats source_path tree =
     zip_walk pats (path_str source_path) (walk pats (path_str source_path) tree) []"

text \<open>
  What the operating system guarantees of a tree: a name is not empty, holds no
  separator and is neither \<open>.\<close> nor \<open>..\<close>, and the names of one directory are distinct.
\<close>

fun wf_node :: "node \<Rightarrow> bool"
and wf_entries :: "(string \<times> node) list \<Rightarrow> bool"
where
  "wf_node (File i) = True"
| "wf_node (Dir es) = (distinct (map fst es) \<and> wf_entries es)"
| "wf_entries [] = True"
| "wf_entries ((d, c) # es) = (valid_name d \<and> wf_node c \<and> wf_entries es)"

text \<open>\<open>os.path.isabs\<close>.\<close>

definition isabs :: "string \<Rightarrow> bool" where
  "isabs s = (s \<noteq> [] \<and> hd s = sep)"

text \<open>
  The size of a file's data. For an archive it is the payload before compression; the
  size of the compressed file is not modelled, and nothing below depends on it.
\<close>

fun data_size :: "fdata \<Rightarrow> nat" where
  "data_size (Bytes s) = length s"
| "data_size (Zip es) = sum_list (map (\<lambda>e. length (fst e) + data_size (snd e)) es)"

definition zip_info :: "rat \<Rightarrow> (string \<times> fdata) list \<Rightarrow> finfo" where
  "zip_info now es =
     \<lparr>f_data = Zip es, f_size = data_size (Zip es), f_mtime = now,
      f_readable = True, f_removable = True\<rparr>"

text \<open>
  \<open>shutil.copytree(src, dst, ignore=ignore_patterns(*patterns))\<close> on the entries of one
  directory: a name is ignored when \<open>fnmatch.filter\<close> keeps it for some pattern (the
  bare name is matched, not the path). A file that cannot be read is recorded as an
  error and the copy goes on; the errors are raised together at the end. The tree copied
  is the source as it is when the copy starts: this is \<open>copytree\<close> for a destination
  outside the source tree. For one inside it, \<open>copytree\<close> meets its own output while it
  descends, which is not followed here.
\<close>

definition ignored :: "string list \<Rightarrow> string \<Rightarrow> bool" where
  "ignored patterns name = list_ex (\<lambda>pattern. fnmatch name pattern) patterns"

fun copy_node :: "string list \<Rightarrow> node \<Rightarrow> node option \<times> bool"
and copy_entries :: "string list \<Rightarrow> (string \<times> node) list \<Rightarrow> (string \<times> node) list \<times> bool"
where
  "copy_node patterns (File i) = (if f_readable i then (Some (File i), False) else (None, True))"
| "copy_node patterns (Dir es) =
     (case copy_entries patterns es of (es', err) \<Rightarrow> (Some (Dir es'), err))"
| "copy_entries patterns [] = ([], False)"
| "copy_entries patterns ((name, c) # es) =
     (case copy_entries patterns es of
        (es', err) \<Rightarrow>
          (if ignored patterns name then (es', err)
           else (case copy_node patterns c of
                   (None, err1) \<Rightarrow> (es', err1 \<or> err)
                 | (Some c', err1) \<Rightarrow> ((name, c') # es', err1 \<or> err))))"

text \<open>
  \<open>backup_directory\<close>. \<open>source_path\<close> and \<open>dest_path\<close> are the resolved paths,
  \<open>timestamp\<close> is \<open>datetime.now().strftime("%Y%m%d_%H%M%S")\<close> and \<open>now\<close> the time the
  archive file gets. The walk reads the tree as it is once the archive file has been
  created. The body returns the result or the exception, and the filesystem it leaves;
  leaving the \<open>with\<close> block closes the archive, whether by an exception or not, so the
  entries written so far are in the file.
\<close>

definition zip_backup_path :: "string list \<Rightarrow> string list \<Rightarrow> string \<Rightarrow> string \<Rightarrow> string list" where
  "zip_backup_path source_path dest_path zip_file timestamp =
     (let zip_filename = (if endswith zip_file ''.zip'' then zip_file else zip_file @ ''.zip'')
      in path_div dest_path (path_name source_path @ ''_'' @ timestamp @ ''_'' @ zip_filename))"

definition copy_backup_path :: "string list \<Rightarrow> string list \<Rightarrow> string \<Rightarrow> string list" where
  "copy_backup_path source_path dest_path timestamp =
     path_div dest_path (path_name source_path @ ''_'' @ timestamp)"

definition backup_zip :: "node \<Rightarrow> string list \<Rightarrow> string list \<Rightarrow> string list \<Rightarrow> rat \<Rightarrow> (exn + string) \<times> node" where
  "backup_zip fs source_path backup_path exclude_patterns now =
     (case open_write fs backup_path (zip_info now []) of
        Inl e \<Rightarrow> (Inl e, fs)
      | Inr fs1 \<Rightarrow>
          (case lookup fs1 source_path of
             None \<Rightarrow> (Inr (path_str backup_path), fs1)
           | Some tree \<Rightarrow>
               (case zip_entries exclude_patterns source_path tree of
                  (err, zipf) \<Rightarrow>
                    (let fs2 = store backup_path (Some (File (zip_info now zipf))) fs1
                     in case err of
                          Some e \<Rightarrow> (Inl e, fs2)
                        | None \<Rightarrow> (Inr (path_str backup_path), fs2)))))"

definition backup_copy :: "node \<Rightarrow> string list \<Rightarrow> string list \<Rightarrow> string list \<Rightarrow> (exn + string) \<times> node" where
  "backup_copy fs source_path backup_path exclude_patterns =
     (case lookup fs source_path of
        None \<Rightarrow> (Inl FileNotFoundError, fs)
      | Some (File i) \<Rightarrow> (Inl NotADirectoryError, fs)
      | Some (Dir es) \<Rightarrow>
          (if exists fs backup_path then (Inl FileExistsError, fs)
           else (case os_makedirs fs backup_path of
                   Inl e \<Rightarrow> (Inl e, fs)
                 | Inr fs1 \<Rightarrow>
                     (case copy_entries exclude_patterns es of
                        (es', err) \<Rightarrow>
                          (let fs2 = store backup_path (Some (Dir es')) fs1
                           in if err then (Inl ShutilError, fs2)
                              else (Inr (path_str backup_path), fs2))))))"

definition backup_body :: "node \<Rightarrow> string list \<Rightarrow> string list \<Rightarrow> string option \<Rightarrow> string list
    \<Rightarrow> string \<Rightarrow> rat \<Rightarrow> (exn + string) \<times> node" where
  "backup_body fs source_path dest_path zip_file exclude_patterns timestamp now =
     (if \<not> exists fs source_path then (Inl FileNotFoundError, fs)
      else (case os_makedirs fs dest_path of
              Inl e \<Rightarrow> (Inl e, fs)
            | Inr fs1 \<Rightarrow>
                (case zip_file of
                   Some z \<Rightarrow>
                     (if z \<noteq> [] then
                        backup_zip fs1 source_path
                          (zip_backup_path source_path dest_path z timestamp) exclude_patterns now
                      else
                        backup_copy fs1 source_path
                          (copy_backup_path source_path dest_path timestamp) exclude_patterns)
                 | None \<Rightarrow>
                     backup_copy fs1 source_path
                       (copy_backup_path source_path dest_path timestamp) exclude_patterns)))"

text \<open>
  \<open>try: ... except Exception as e: ...\<close> catches what is an instance of \<open>Exception\<close>;
  anything else would leave the function. Every exception of the model is one.
\<close>

fun is_Exception :: "exn \<Rightarrow> bool" where
  "is_Exception FileNotFoundError = True"
| "is_Exception FileExistsError = True"
| "is_Exception NotADirectoryError = True"
| "is_Exception IsADirectoryError = True"
| "is_Exception PermissionError = True"
| "is_Exception ShutilError = True"
| "is_Exception ValueError = True"
| "is_Exception NotImplementedError = True"
| "is_Exception IndexError = True"
| "is_Exception StructError = True"

text \<open>
  The function itself: the body inside \<open>try\<close>, and \<open>return None\<close> in the handler.
  \<open>Inr\<close> is a value returned to the caller, \<open>Inl\<close> an exception that reaches the
  caller. The log is not part of the model.
\<close>

definition backup_directory :: "node \<Rightarrow> string list \<Rightarrow> string list \<Rightarrow> string option \<Rightarrow> string list
    \<Rightarrow> string \<Rightarrow> rat \<Rightarrow> (exn + string option) \<times> node" where
  "backup_directory fs source_dir dest_dir zip_file exclude_patterns timestamp now =
     (case backup_body fs source_dir dest_dir zip_file exclude_patterns timestamp now of
        (Inl e, fs') \<Rightarrow> (if is_Exception e then Inr None else Inl e, fs')
      | (Inr backup_path, fs') \<Rightarrow> (Inr (Some backup_path), fs'))"

text \<open>The entries of the archive file at a path, when there is one.\<close>

definition archive_at :: "node \<Rightarrow> string list \<Rightarrow> (string \<times> fdata) list option" where
  "archive_at fs p =
     (case lookup fs p of
        Some (File i) \<Rightarrow> (case f_data i of Zip es \<Rightarrow> Some es | Bytes s \<Rightarrow> None)
      | _ \<Rightarrow> None)"

section \<open>Path.glob\<close>

text \<open>
  \<open>Path.glob(pattern)\<close> as CPython 3.11's \<open>pathlib\<close> has it. The pattern is split into
  its parts and one selector is made per part: \<open>**\<close> ranges over the directory and
  every directory below it and drops what it has yielded already, a part with \<open>*\<close>,
  \<open>?\<close> or \<open>[\<close> is matched with \<open>fnmatch\<close> against the names of the directory, any
  other part names one child. A part that has a successor selects directories only. The
  names of a directory are read in one go when its selector starts. A part \<open>..\<close> names
  no child here, where \<open>pathlib\<close> goes up to the parent.
\<close>

fun dirs_below :: "string list \<Rightarrow> node \<Rightarrow> string list list"
and dirs_below_entries :: "string list \<Rightarrow> (string \<times> node) list \<Rightarrow> string list list"
where
  "dirs_below p (File i) = []"
| "dirs_below p (Dir es) = p # dirs_below_entries p es"
| "dirs_below_entries p [] = []"
| "dirs_below_entries p ((d, c) # es) = dirs_below (p @ [d]) c @ dirs_below_entries p es"

definition iterate_directories :: "node \<Rightarrow> string list \<Rightarrow> string list list" where
  "iterate_directories fs parent_path =
     (case lookup fs parent_path of None \<Rightarrow> [] | Some n \<Rightarrow> dirs_below parent_path n)"

definition scandir :: "node \<Rightarrow> string list \<Rightarrow> (string \<times> node) list" where
  "scandir fs p = (case lookup fs p of Some (Dir es) \<Rightarrow> es | _ \<Rightarrow> [])"

definition is_wildcard_pattern :: "string \<Rightarrow> bool" where
  "is_wildcard_pattern pat = (CHR ''*'' \<in> set pat \<or> CHR ''?'' \<in> set pat \<or> CHR ''['' \<in> set pat)"

fun select_from :: "node \<Rightarrow> string list \<Rightarrow> string list \<Rightarrow> string list list" where
  "select_from fs [] parent_path = [parent_path]"
| "select_from fs (pat # child_parts) parent_path =
     (if pat = [] then [parent_path]
      else if pat = ''**'' then
        remdups (concat (map (\<lambda>starting_point. select_from fs child_parts starting_point)
                             (iterate_directories fs parent_path)))
      else if is_wildcard_pattern pat then
        concat (map (\<lambda>name. select_from fs child_parts (parent_path @ [name]))
                    [fst e. e \<leftarrow> scandir fs parent_path,
                            child_parts = [] \<or> is_dir_node (snd e), fnmatch (fst e) pat])
      else if (if child_parts = [] then exists fs (parent_path @ [pat])
               else is_dir fs (parent_path @ [pat]))
        then select_from fs child_parts (parent_path @ [pat])
      else [])"

definition path_glob :: "node \<Rightarrow> string list \<Rightarrow> string \<Rightarrow> exn + string list list" where
  "path_glob fs p pattern =
     (if pattern = [] then Inl ValueError
      else if hd pattern = sep then Inl NotImplementedError
      else
        (let pattern_parts = pure_parts pattern @ (if last pattern = sep then [[]] else [])
         in if pattern_parts = [] then Inl IndexError
            else if list_ex (\<lambda>pat. pat \<noteq> ''**'' \<and> sublist ''**'' pat) pattern_parts then Inl ValueError
            else if is_dir fs p then Inr (select_from fs pattern_parts p)
            else Inr []))"

section \<open>clean_directory\<close>

text \<open>
  \<open>stat()\<close> of a path that is a file, and \<open>os.remove\<close>. The operation calls \<open>stat\<close> only
  on paths for which \<open>is_file\<close> has just held.
\<close>

definition st_mtime :: "node \<Rightarrow> string list \<Rightarrow> rat" where
  "st_mtime fs p = (case lookup fs p of Some (File i) \<Rightarrow> f_mtime i | _ \<Rightarrow> 0)"

definition st_size :: "node \<Rightarrow> string list \<Rightarrow> nat" where
  "st_size fs p = (case lookup fs p of Some (File i) \<Rightarrow> f_size i | _ \<Rightarrow> 0)"

definition os_remove :: "node \<Rightarrow> string list \<Rightarrow> exn + node" where
  "os_remove fs p =
     (case lookup fs p of
        None \<Rightarrow> Inl FileNotFoundError
      | Some (Dir es) \<Rightarrow> Inl IsADirectoryError
      | Some (File i) \<Rightarrow> (if p \<noteq> [] \<and> f_removable i then Inr (store p None fs) else Inl PermissionError))"

text \<open>
  The first loop: the matched paths that are files and are not skipped by the age test.
  \<open>older_than\<close> is a number of days or \<open>None\<close>; times are seconds. The age is the exact
  quotient here. The source computes it in binary floating point, which gives the same
  comparison when the two times differ by a whole number of seconds, and can differ from
  the exact one within a rounding step of the threshold.
\<close>

definition file_age_days :: "rat \<Rightarrow> rat \<Rightarrow> rat" where
  "file_age_days current_time mtime = (current_time - mtime) / (60 * 60 * 24)"

fun collect_files :: "node \<Rightarrow> rat \<Rightarrow> int option \<Rightarrow> string list list \<Rightarrow> string list list
    \<Rightarrow> string list list" where
  "collect_files fs current_time older_than [] files_to_delete = files_to_delete"
| "collect_files fs current_time older_than (file_path # rest) files_to_delete =
     (if is_file fs file_path then
        (case older_than of
           Some days \<Rightarrow>
             (if file_age_days current_time (st_mtime fs file_path) < of_int days
              then collect_files fs current_time older_than rest files_to_delete
              else collect_files fs current_time older_than rest (files_to_delete @ [file_path]))
         | None \<Rightarrow> collect_files fs current_time older_than rest (files_to_delete @ [file_path]))
      else collect_files fs current_time older_than rest files_to_delete)"

text \<open>
  The second loop, in live mode: each removal is tried on its own, and an \<open>Exception\<close> of
  one is logged and passed over.
\<close>

fun remove_files :: "node \<Rightarrow> string list list \<Rightarrow> nat \<Rightarrow> (exn + nat) \<times> node" where
  "remove_files fs [] deleted_count = (Inr deleted_count, fs)"
| "remove_files fs (file_path # rest) deleted_count =
     (case os_remove fs file_path of
        Inr fs' \<Rightarrow> remove_files fs' rest (deleted_count + 1)
      | Inl e \<Rightarrow> (if is_Exception e then remove_files fs rest deleted_count else (Inl e, fs)))"

definition clean_body :: "node \<Rightarrow> string list \<Rightarrow> string \<Rightarrow> int option \<Rightarrow> bool \<Rightarrow> rat
    \<Rightarrow> (exn + nat \<times> nat) \<times> node" where
  "clean_body fs dir_path pattern older_than dry_run current_time =
     (if \<not> exists fs dir_path \<or> \<not> is_dir fs dir_path then (Inl FileNotFoundError, fs)
      else
        (case path_glob fs dir_path pattern of
           Inl e \<Rightarrow> (Inl e, fs)
         | Inr matched \<Rightarrow>
             (let files_to_delete = collect_files fs current_time older_than matched [];
                  total_size = sum_list (map (st_size fs) files_to_delete)
              in if dry_run then (Inr (length files_to_delete, total_size), fs)
                 else
                   (case remove_files fs files_to_delete 0 of
                      (Inl e, fs') \<Rightarrow> (Inl e, fs')
                    | (Inr deleted_count, fs') \<Rightarrow> (Inr (length files_to_delete, total_size), fs')))))"

text \<open>The function itself: the handler returns \<open>(0, 0)\<close>.\<close>

definition clean_directory :: "node \<Rightarrow> string list \<Rightarrow> string \<Rightarrow> int option \<Rightarrow> bool \<Rightarrow> rat
    \<Rightarrow> (exn + nat \<times> nat) \<times> node" where
  "clean_directory fs directory pattern older_than dry_run current_time =
     (case clean_body fs directory pattern older_than dry_run current_time of
        (Inl e, fs') \<Rightarrow> (if is_Exception e then Inr (0, 0) else Inl e, fs')
      | (Inr r, fs') \<Rightarrow> (Inr r, fs'))"

section \<open>organize_files\<close>

text \<open>
  \<open>str.rfind\<close>, and \<open>suffix\<close> and \<open>stem\<close> of a name as \<open>pathlib\<close> computes them: the
  suffix starts at the last dot unless that dot is the first or the last character.
  \<open>lower\<close> is \<open>str.lower\<close> on the code points below 256: the letters \<open>A\<close> to \<open>Z\<close>
  and the capital letters from 192 to 222 have their small letter 32 above.
\<close>

fun rfind :: "char \<Rightarrow> string \<Rightarrow> nat option" where
  "rfind c [] = None"
| "rfind c (x # xs) =
     (case rfind c xs of Some i \<Rightarrow> Some (Suc i) | None \<Rightarrow> (if x = c then Some 0 else None))"

definition path_suffix :: "string \<Rightarrow> string" where
  "path_suffix name =
     (case rfind (CHR ''.'') name of
        None \<Rightarrow> []
      | Some i \<Rightarrow> (if 0 < i \<and> Suc i < length name then drop i name else []))"

definition path_stem :: "string \<Rightarrow> string" where
  "path_stem name =
     (case rfind (CHR ''.'') name of
        None \<Rightarrow> name
      | Some i \<Rightarrow> (if 0 < i \<and> Suc i < length name then take i name else name))"

definition lower_char :: "char \<Rightarrow> char" where
  "lower_char c =
     (let n = (of_char c :: nat)
      in if (65 \<le> n \<and> n \<le> 90) \<or> (192 \<le> n \<and> n \<le> 222 \<and> n \<noteq> 215) then char_of (n + 32) else c)"

definition lower :: "string \<Rightarrow> string" where
  "lower s = map lower_char s"

definition lstrip_dots :: "string \<Rightarrow> string" where
  "lstrip_dots s = dropWhile (\<lambda>c. c = CHR ''.'') s"

text \<open>The rule table used when the caller gives none, as the items of the dictionary.\<close>

definition default_rules :: "(string \<times> string) list" where
  "default_rules =
     [(''pdf'', ''Documents/PDFs''),
      (''doc'', ''Documents/Word''), (''docx'', ''Documents/Word''),
      (''xls'', ''Documents/Excel''), (''xlsx'', ''Documents/Excel''),
      (''ppt'', ''Documents/PowerPoint''), (''pptx'', ''Documents/PowerPoint''),
      (''txt'', ''Documents/Text''),
      (''jpg'', ''Images''), (''jpeg'', ''Images''),
      (''png'', ''Images''),
      (''gif'', ''Images''),
      (''bmp'', ''Images''),
      (''mp3'', ''Media/Audio''),
      (''wav'', ''Media/Audio''),
      (''mp4'', ''Media/Video''),
      (''avi'', ''Media/Video''),
      (''mkv'', ''Media/Video''),
      (''zip'', ''Files/Compressed''),
      (''rar'', ''Files/Compressed''),
      (''tar'', ''Files/Compressed''),
      (''gz'', ''Files/Compressed''),
      (''exe'', ''Installers''),
      (''msi'', ''Installers''),
      (''dmg'', ''Installers''),
      (''py'', ''Code/Python''),
      (''js'', ''Code/JavaScript''),
      (''html'', ''Code/Web''),
      (''css'', ''Code/Web''),
      (''java'', ''Code/Java''),
      (''c'', ''Code/C''),
      (''cpp'', ''Code/C++'')]"

text \<open>
  \<open>os.rename\<close> of a file within one filesystem replaces a file at the target, and
  \<open>shutil.move\<close>: a target that is a directory receives the file under its own name,
  unless that name is taken there.
\<close>

definition os_rename :: "node \<Rightarrow> string list \<Rightarrow> string list \<Rightarrow> exn + node" where
  "os_rename fs src dst =
     (case lookup fs src of
        None \<Rightarrow> Inl FileNotFoundError
      | Some n \<Rightarrow>
          (if src = [] \<or> dst = [] then Inl PermissionError
           else if \<not> exists fs (butlast dst) then Inl FileNotFoundError
           else if \<not> is_dir fs (butlast dst) then Inl NotADirectoryError
           else if is_dir fs dst then Inl IsADirectoryError
           else if src = dst then Inr fs
           else Inr (store dst (Some n) (store src None fs))))"

definition shutil_move :: "node \<Rightarrow> string list \<Rightarrow> string list \<Rightarrow> exn + node" where
  "shutil_move fs src dst =
     (if is_dir fs dst then
        (let real_dst = dst @ [path_name src]
         in if exists fs real_dst then Inl ShutilError else os_rename fs src real_dst)
      else os_rename fs src dst)"

text \<open>
  The body of the loop for one path of the listing. \<open>clock\<close> gives the value of
  \<open>datetime.now().strftime("%Y%m%d_%H%M%S")\<close> at each of its calls and \<open>tick\<close> counts the
  calls made so far. The result says whether the file was moved, and the new \<open>tick\<close>.
\<close>

definition organize_file :: "(nat \<Rightarrow> string) \<Rightarrow> string list \<Rightarrow> (string \<times> string) list \<Rightarrow> string list
    \<Rightarrow> node \<Rightarrow> nat \<Rightarrow> (exn + bool \<times> nat) \<times> node" where
  "organize_file clock dir_path rules file_path fs tick =
     (if is_file fs file_path then
        (let extension = lstrip_dots (lower (path_suffix (path_name file_path)))
         in case map_of rules extension of
              None \<Rightarrow> (Inr (False, tick), fs)
            | Some folder \<Rightarrow>
                (let dest_folder = path_div dir_path folder
                 in case os_makedirs fs dest_folder of
                      Inl e \<Rightarrow> (Inl e, fs)
                    | Inr fs1 \<Rightarrow>
                        (let dest_path = path_div dest_folder (path_name file_path);
                             collision = exists fs1 dest_path;
                             base_name = path_stem (path_name dest_path);
                             extension = path_suffix (path_name dest_path);
                             timestamp = clock tick;
                             dest_path = (if collision
                                          then path_div dest_folder (base_name @ ''_'' @ timestamp @ extension)
                                          else dest_path)
                         in case shutil_move fs1 file_path dest_path of
                              Inl e \<Rightarrow> (Inl e, fs1)
                            | Inr fs2 \<Rightarrow> (Inr (True, if collision then Suc tick else tick), fs2))))
      else (Inr (False, tick), fs))"

fun organize_loop :: "(nat \<Rightarrow> string) \<Rightarrow> string list \<Rightarrow> (string \<times> string) list \<Rightarrow> string list list
    \<Rightarrow> node \<Rightarrow> nat \<Rightarrow> nat \<Rightarrow> (exn + nat) \<times> node" where
  "organize_loop clock dir_path rules [] fs organized_count tick = (Inr organized_count, fs)"
| "organize_loop clock dir_path rules (file_path # rest) fs organized_count tick =
     (case organize_file clock dir_path rules file_path fs tick of
        (Inl e, fs') \<Rightarrow> (Inl e, fs')
      | (Inr (moved, tick'), fs') \<Rightarrow>
          organize_loop clock dir_path rules rest fs'
            (if moved then organized_count + 1 else organized_count) tick')"

text \<open>
  \<open>organize_files\<close>. \<open>rules\<close> is the dictionary by its items; an empty one (or \<open>None\<close>)
  is replaced by the default table. The listing \<open>dir_path.glob('*')\<close> is taken when the
  loop starts.
\<close>

definition organize_body :: "node \<Rightarrow> string list \<Rightarrow> (string \<times> string) list \<Rightarrow> (nat \<Rightarrow> string)
    \<Rightarrow> (exn + nat) \<times> node" where
  "organize_body fs dir_path rules clock =
     (if \<not> exists fs dir_path \<or> \<not> is_dir fs dir_path then (Inl FileNotFoundError, fs)
      else
        (let rules = (if rules = [] then default_rules else rules)
         in case path_glob fs dir_path ''*'' of
              Inl e \<Rightarrow> (Inl e, fs)
            | Inr listing \<Rightarrow> organize_loop clock dir_path rules listing fs 0 0))"

definition organize_files :: "node \<Rightarrow> string list \<Rightarrow> (string \<times> string) list \<Rightarrow> (nat \<Rightarrow> string)
    \<Rightarrow> (exn + nat) \<times> node" where
  "organize_files fs directory rules clock =
     (case organize_body fs directory rules clock of
        (Inl e, fs') \<Rightarrow> (if is_Exception e then Inr 0 else Inl e, fs')
      | (Inr organized_count, fs') \<Rightarrow> (Inr organized_count, fs'))"

section \<open>Example trees\<close>

text \<open>
  The tree of the specification's scenario, \<open>{a.txt, b.log, sub/c.txt}\<close>, as the
  directory \<open>/src\<close> of a filesystem.
\<close>

definition plain_file :: "string \<Rightarrow> node" where
  "plain_file s =
     File \<lparr>f_data = Bytes s, f_size = length s, f_mtime = 1000000000, f_readable = True, f_removable = True\<rparr>"

definition spec_tree :: node where
  "spec_tree =
     Dir [(''a.txt'', plain_file ''A''), (''b.log'', plain_file ''B''),
          (''sub'', Dir [(''c.txt'', plain_file ''C'')])]"

definition spec_fs :: node where
  "spec_fs = Dir [(''src'', spec_tree)]"

section \<open>Lemmas on path strings\<close>

lemma split_sep_nonempty [simp]: "split_sep s \<noteq> []"
  by (induction s) (auto split: list.splits)

lemma split_sep_no_sep: "sep \<notin> set s \<Longrightarrow> split_sep s = [s]"
  by (induction s) (auto split: list.splits)

lemma split_sep_append: "split_sep (a @ sep # b) = split_sep a @ split_sep b"
  by (induction a) (auto split: list.splits)

lemma split_sep_append_no_sep: "sep \<notin> set a \<Longrightarrow> split_sep (a @ sep # b) = a # split_sep b"
  by (simp add: split_sep_append split_sep_no_sep)

lemma norm_comps_append: "norm_comps acc (xs @ ys) = norm_comps (norm_comps acc xs) ys"
  by (induction xs arbitrary: acc) auto

lemma norm_comps_valid: "list_all valid_name xs \<Longrightarrow> norm_comps acc xs = acc @ xs"
  by (induction xs arbitrary: acc) (auto simp: valid_name_def)

lemma split_sep_join_sep:
  "list_all valid_name xs \<Longrightarrow> xs \<noteq> [] \<Longrightarrow> split_sep (join_sep xs) = xs"
proof (induction xs rule: join_sep.induct)
  case 1 then show ?case by simp
next
  case (2 p) then show ?case by (simp add: split_sep_no_sep valid_name_def)
next
  case (3 p q ps)
  then show ?case by (simp add: split_sep_append_no_sep valid_name_def)
qed

lemma concat_sep_join: "xs \<noteq> [] \<Longrightarrow> concat (map (\<lambda>s. sep # s) xs) = sep # join_sep xs"
  by (induction xs rule: join_sep.induct) auto

lemma path_str_join: "xs \<noteq> [] \<Longrightarrow> path_str xs = sep # join_sep xs"
  by (simp add: path_str_def concat_sep_join)

lemma abs_comps_path_str: "list_all valid_name xs \<Longrightarrow> abs_comps (path_str xs) = xs"
proof (cases "xs = []")
  case True
  then show ?thesis by (simp add: abs_comps_def path_str_def)
next
  case False
  assume v: "list_all valid_name xs"
  have "split_sep (path_str xs) = [] # xs"
    using False v by (simp add: path_str_join split_sep_join_sep)
  then show ?thesis using v by (simp add: abs_comps_def norm_comps_valid)
qed

lemma valid_name_hd: "valid_name f \<Longrightarrow> f \<noteq> [] \<and> hd f \<noteq> sep"
  by (cases f) (auto simp: valid_name_def)

lemma last_path_str: "list_all valid_name xs \<Longrightarrow> xs \<noteq> [] \<Longrightarrow> last (path_str xs) \<noteq> sep"
proof -
  assume v: "list_all valid_name xs" and ne: "xs \<noteq> []"
  obtain ys y where xs: "xs = ys @ [y]" using ne by (metis rev_exhaust)
  then have vy: "valid_name y" using v by simp
  have "path_str xs = concat (map (\<lambda>s. sep # s) ys) @ sep # y"
    using xs by (simp add: path_str_def)
  then have "last (path_str xs) = last y" using vy by (simp add: valid_name_def)
  moreover have "last y \<in> set y" using vy by (simp add: valid_name_def)
  moreover have "sep \<notin> set y" using vy by (simp add: valid_name_def)
  ultimately show ?thesis by metis
qed

lemma os_path_join_path_str:
  "list_all valid_name xs \<Longrightarrow> valid_name f \<Longrightarrow> os_path_join (path_str xs) f = path_str (xs @ [f])"
proof (cases "xs = []")
  case True
  assume "valid_name f"
  then have "f \<noteq> []" "hd f \<noteq> sep" using valid_name_hd by auto
  then show ?thesis using True by (simp add: os_path_join_def path_str_def) 
next
  case False
  assume v: "list_all valid_name xs" and vf: "valid_name f"
  from vf have f: "f \<noteq> []" "hd f \<noteq> sep" using valid_name_hd by auto
  have "path_str xs \<noteq> []" using False by (simp add: path_str_join)
  moreover have "last (path_str xs) \<noteq> sep" using last_path_str[OF v False] .
  ultimately have "os_path_join (path_str xs) f = path_str xs @ sep # f"
    using f by (simp add: os_path_join_def)
  then show ?thesis using False by (simp add: path_str_def)
qed

lemma common_len_append: "common_len xs (xs @ ys) = length xs"
  by (induction xs) auto

lemma relpath_path_str:
  assumes "list_all valid_name src" "list_all valid_name rel" "rel \<noteq> []"
  shows "os_path_relpath (path_str (src @ rel)) (path_str src) = join_sep rel"
proof -
  have "abs_comps (path_str (src @ rel)) = src @ rel" using assms by (simp add: abs_comps_path_str)
  moreover have "abs_comps (path_str src) = src" using assms by (simp add: abs_comps_path_str)
  ultimately show ?thesis using assms(3) by (simp add: os_path_relpath_def Let_def common_len_append)
qed

lemma files_in_entries:
  "(f, i) \<in> set (concat (map (\<lambda>e. case snd e of File i \<Rightarrow> [(fst e, i)] | Dir _ \<Rightarrow> []) es))
     \<longleftrightarrow> (f, File i) \<in> set es"
  by (induction es) (auto split: node.splits)

lemma wf_entries_mem: "wf_entries es \<Longrightarrow> (d, c) \<in> set es \<Longrightarrow> valid_name d \<and> wf_node c"
  by (induction es) auto

definition walk_ok :: "string list \<Rightarrow> string list \<Rightarrow> node \<Rightarrow> (string \<times> string list \<times> (string \<times> finfo) list) \<Rightarrow> string list \<Rightarrow> bool" where
  "walk_ok pats base n t ds \<longleftrightarrow>
     fst t = path_str (base @ ds) \<and> list_all valid_name ds \<and>
     (\<forall>p. p \<noteq> [] \<and> prefix p ds \<longrightarrow> \<not> excluded pats (path_str (base @ p))) \<and>
     (\<forall>(f, i) \<in> set (snd (snd t)). valid_name f \<and> lookup n (ds @ [f]) = Some (File i))"

lemma walk_sound_aux:
  "(\<forall>base t. wf_node n \<longrightarrow> list_all valid_name base \<longrightarrow> rd = path_str base \<longrightarrow>
       t \<in> set (walk pats rd n) \<longrightarrow> (\<exists>ds. walk_ok pats base n t ds))"
  "(\<forall>base t. wf_entries es \<longrightarrow> distinct (map fst es) \<longrightarrow> list_all valid_name base \<longrightarrow> rd = path_str base \<longrightarrow>
       t \<in> set (walk_dirs pats rd es) \<longrightarrow> (\<exists>ds. ds \<noteq> [] \<and> walk_ok pats base (Dir es) t ds))"
proof (induction pats rd n and pats rd es rule: walk_walk_dirs.induct)
  case (1 pats rd i)
  then show ?case by simp
next
  case (2 pats rd es)
  show ?case
  proof (intro allI impI)
    fix base t
    assume wf: "wf_node (Dir es)" and vb: "list_all valid_name base" and rd: "rd = path_str base"
      and t: "t \<in> set (walk pats rd (Dir es))"
    from t consider (hd) "t = (rd, [fst e. e \<leftarrow> es, is_dir_node (snd e), \<not> excluded pats (os_path_join rd (fst e))],
      concat (map (\<lambda>e. case snd e of File i \<Rightarrow> [(fst e, i)] | Dir _ \<Rightarrow> []) es))"
      | (tl) "t \<in> set (walk_dirs pats rd es)" by auto
    then show "\<exists>ds. walk_ok pats base (Dir es) t ds"
    proof cases
      case hd
      have "walk_ok pats base (Dir es) t []"
        unfolding walk_ok_def using hd rd wf
        by (auto simp: files_in_entries dest: wf_entries_mem)
      then show ?thesis ..
    next
      case tl
      from wf have "wf_entries es" "distinct (map fst es)" by auto
      with 2 vb rd tl obtain ds where "ds \<noteq> []" "walk_ok pats base (Dir es) t ds" by blast
      then show ?thesis by blast
    qed
  qed
next
  case (3 pats rd)
  then show ?case by simp
next
  case (4 pats rd d c es)
  show ?case
  proof (intro allI impI)
    fix base t
    assume wf: "wf_entries ((d, c) # es)" and dist: "distinct (map fst ((d, c) # es))"
      and vb: "list_all valid_name base" and rd: "rd = path_str base"
      and t: "t \<in> set (walk_dirs pats rd ((d, c) # es))"
    from wf have vd: "valid_name d" and wfc: "wf_node c" and wfes: "wf_entries es" by auto
    have j: "os_path_join rd d = path_str (base @ [d])"
      using rd vb vd by (simp add: os_path_join_path_str)
    from t consider (here) "is_dir_node c" "\<not> excluded pats (os_path_join rd d)" "t \<in> set (walk pats (os_path_join rd d) c)"
      | (rest) "t \<in> set (walk_dirs pats rd es)" by (auto split: if_splits)
    then show "\<exists>ds. ds \<noteq> [] \<and> walk_ok pats base (Dir ((d, c) # es)) t ds"
    proof cases
      case here
      have vb': "list_all valid_name (base @ [d])" using vb vd by simp
      from 4(1) here wfc vb' j obtain ds where ok: "walk_ok pats (base @ [d]) c t ds"
        by blast
      have "walk_ok pats base (Dir ((d, c) # es)) t (d # ds)"
        unfolding walk_ok_def
      proof (intro conjI allI impI)
        show "fst t = path_str (base @ d # ds)" using ok by (simp add: walk_ok_def)
        show "list_all valid_name (d # ds)" using ok vd by (simp add: walk_ok_def)
        show "\<forall>(f, i)\<in>set (snd (snd t)). valid_name f \<and> lookup (Dir ((d, c) # es)) ((d # ds) @ [f]) = Some (File i)"
          using ok by (auto simp: walk_ok_def)
      next
        fix p assume p: "p \<noteq> [] \<and> prefix p (d # ds)"
        then obtain p' where p': "p = d # p'" "prefix p' ds" by (auto simp: prefix_Cons)
        show "\<not> excluded pats (path_str (base @ p))"
        proof (cases "p' = []")
          case True
          then show ?thesis using here(2) j p' by simp
        next
          case False
          then show ?thesis using ok p' by (auto simp: walk_ok_def)
        qed
      qed
      then show ?thesis by blast
    next
      case rest
      from dist have de: "distinct (map fst es)" by simp
      from 4(2) wfes de vb rd rest obtain ds where ne: "ds \<noteq> []" and ok: "walk_ok pats base (Dir es) t ds"
        by blast
      have "walk_ok pats base (Dir ((d, c) # es)) t ds"
        unfolding walk_ok_def
      proof (intro conjI)
        show "fst t = path_str (base @ ds)" using ok by (simp add: walk_ok_def)
        show "list_all valid_name ds" using ok by (simp add: walk_ok_def)
        show "\<forall>p. p \<noteq> [] \<and> prefix p ds \<longrightarrow> \<not> excluded pats (path_str (base @ p))"
          using ok by (simp add: walk_ok_def)
        show "\<forall>(f, i)\<in>set (snd (snd t)). valid_name f \<and> lookup (Dir ((d, c) # es)) (ds @ [f]) = Some (File i)"
        proof (clarify)
          fix f i assume fi: "(f, i) \<in> set (snd (snd t))"
          with ok have vf: "valid_name f" and lk: "lookup (Dir es) (ds @ [f]) = Some (File i)"
            by (auto simp: walk_ok_def)
          obtain d' ds' where ds: "ds = d' # ds'" using ne by (cases ds) auto
          with lk have "map_of es d' \<noteq> None" by (auto split: option.splits)
          then have "d' \<in> fst ` set es" by (metis map_of_eq_None_iff)
          with dist have "d' \<noteq> d" by auto
          with lk ds show "valid_name f \<and> lookup (Dir ((d, c) # es)) (ds @ [f]) = Some (File i)"
            using vf by simp
        qed
      qed
      with ne show ?thesis by blast
    qed
  qed
qed

section \<open>Lemmas on the archive loop\<close>

lemma zip_files_sound:
  "zip_files pats source rd files z = (e, z') \<Longrightarrow> x \<in> set z' \<Longrightarrow>
     x \<in> set z \<or> (\<exists>f i. (f, i) \<in> set files \<and> \<not> excluded pats (os_path_join rd f) \<and> f_readable i
                     \<and> x = (os_path_relpath (os_path_join rd f) source, f_data i))"
proof (induction files arbitrary: z)
  case Nil
  then show ?case by simp
next
  case (Cons a files)
  obtain f i where a: "a = (f, i)" by (cases a)
  show ?case
  proof (cases "excluded pats (os_path_join rd f)")
    case True
    with Cons.prems a have "zip_files pats source rd files z = (e, z')" by simp
    from Cons.IH[OF this Cons.prems(2)] show ?thesis by auto
  next
    case False
    show ?thesis
    proof (cases "f_mtime i < 315532800 \<or> \<not> f_readable i \<or> 4354819200 \<le> f_mtime i")
      case stop: True
      with Cons.prems a False have "z' = z" by (auto simp: Let_def split: if_splits)
      with Cons.prems show ?thesis by simp
    next
      case go: False
      with Cons.prems a False
      have "zip_files pats source rd files (z @ [(os_path_relpath (os_path_join rd f) source, f_data i)]) = (e, z')"
        by (simp add: Let_def)
      from Cons.IH[OF this Cons.prems(2)] show ?thesis using a False go by auto
    qed
  qed
qed

lemma zip_walk_sound:
  "zip_walk pats source ts z = (e, z') \<Longrightarrow> x \<in> set z' \<Longrightarrow>
     x \<in> set z \<or> (\<exists>t \<in> set ts. \<exists>f i. (f, i) \<in> set (snd (snd t)) \<and> \<not> excluded pats (os_path_join (fst t) f)
                     \<and> f_readable i
                     \<and> x = (os_path_relpath (os_path_join (fst t) f) source, f_data i))"
proof (induction ts arbitrary: z)
  case Nil
  then show ?case by simp
next
  case (Cons t ts)
  obtain rd dirs files where t: "t = (rd, dirs, files)" by (cases t)
  obtain e1 z1 where zf: "zip_files pats source rd files z = (e1, z1)" by (cases "zip_files pats source rd files z")
  show ?case
  proof (cases e1)
    case (Some ex)
    with Cons.prems t zf have "z' = z1" by simp
    with zip_files_sound[OF zf] Cons.prems(2) t show ?thesis by fastforce
  next
    case None
    with Cons.prems t zf have zw: "zip_walk pats source ts z1 = (e, z')" by simp
    from Cons.IH[OF zw Cons.prems(2)]
    show ?thesis
    proof
      assume "x \<in> set z1"
      with zip_files_sound[OF zf] t show ?thesis by fastforce
    next
      assume "\<exists>t\<in>set ts. \<exists>f i. (f, i) \<in> set (snd (snd t)) \<and> \<not> excluded pats (os_path_join (fst t) f)
                     \<and> f_readable i
                     \<and> x = (os_path_relpath (os_path_join (fst t) f) source, f_data i)"
      then show ?thesis by auto
    qed
  qed
qed

lemma zip_entries_sound:
  assumes wf: "wf_node tree" and vs: "list_all valid_name source_path"
      and x: "(arcname, d) \<in> set (snd (zip_entries pats source_path tree))"
  shows "\<exists>ds f i. list_all valid_name (ds @ [f]) \<and> lookup tree (ds @ [f]) = Some (File i)
            \<and> arcname = join_sep (ds @ [f]) \<and> d = f_data i \<and> f_readable i
            \<and> \<not> excluded pats (path_str (source_path @ ds @ [f]))
            \<and> (\<forall>p. p \<noteq> [] \<and> prefix p ds \<longrightarrow> \<not> excluded pats (path_str (source_path @ p)))"
proof -
  obtain e z' where ze: "zip_walk pats (path_str source_path) (walk pats (path_str source_path) tree) [] = (e, z')"
    by (cases "zip_walk pats (path_str source_path) (walk pats (path_str source_path) tree) []")
  with x have "(arcname, d) \<in> set z'" by (simp add: zip_entries_def)
  from zip_walk_sound[OF ze this]
  obtain t f i where t: "t \<in> set (walk pats (path_str source_path) tree)"
    and fi: "(f, i) \<in> set (snd (snd t))"
    and ne: "\<not> excluded pats (os_path_join (fst t) f)" and rd: "f_readable i"
    and eq: "(arcname, d) = (os_path_relpath (os_path_join (fst t) f) (path_str source_path), f_data i)"
    by auto
  from walk_sound_aux(1)[of tree "path_str source_path" pats] wf vs t
  obtain ds where ok: "walk_ok pats source_path tree t ds" by blast
  from ok fi have vf: "valid_name f" and lk: "lookup tree (ds @ [f]) = Some (File i)"
    by (auto simp: walk_ok_def)
  from ok have rt: "fst t = path_str (source_path @ ds)" and vds: "list_all valid_name ds"
    and pre: "\<forall>p. p \<noteq> [] \<and> prefix p ds \<longrightarrow> \<not> excluded pats (path_str (source_path @ p))"
    by (auto simp: walk_ok_def)
  have j: "os_path_join (fst t) f = path_str (source_path @ ds @ [f])"
    using rt vs vds vf os_path_join_path_str[of "source_path @ ds" f] by simp
  have r: "os_path_relpath (path_str (source_path @ ds @ [f])) (path_str source_path) = join_sep (ds @ [f])"
    using relpath_path_str[of source_path "ds @ [f]"] vs vds vf by simp
  show ?thesis
    using vds vf lk j r eq ne pre rd by (intro exI[of _ ds] exI[of _ f] exI[of _ i]) auto
qed

lemma join_sep_inj:
  assumes "list_all valid_name xs" "list_all valid_name ys" "xs \<noteq> []" "ys \<noteq> []"
      and "join_sep xs = join_sep ys"
  shows "xs = ys"
  using assms split_sep_join_sep by metis

lemma split_sep_no_sep_mem: "p \<in> set (split_sep s) \<Longrightarrow> sep \<notin> set p"
  by (induction s arbitrary: p) (auto split: if_splits list.splits)

lemma join_sep_not_abs:
  "list_all valid_name xs \<Longrightarrow> xs \<noteq> [] \<Longrightarrow> \<not> isabs (join_sep xs)"
proof (induction xs rule: join_sep.induct)
  case 1 then show ?case by simp
next
  case (2 p) then show ?case using valid_name_hd[of p] by (simp add: isabs_def)
next
  case (3 p q ps)
  then show ?case using valid_name_hd[of p] by (cases p) (auto simp: isabs_def)
qed

lemma abs_comps_join_rel:
  assumes a: "isabs extract_root" and v: "list_all valid_name xs" and ne: "xs \<noteq> []"
  shows "abs_comps (os_path_join extract_root (join_sep xs)) = abs_comps extract_root @ xs"
proof -
  have na: "\<not> isabs (join_sep xs)" using join_sep_not_abs[OF v ne] .
  have jne: "join_sep xs \<noteq> []" using v ne by (cases xs rule: join_sep.cases) (auto simp: valid_name_def)
  have sp: "split_sep (join_sep xs) = xs" using split_sep_join_sep[OF v ne] .
  show ?thesis
  proof (cases "last extract_root = sep")
    case True
    from a have "extract_root \<noteq> []" by (simp add: isabs_def)
    then obtain r where r: "extract_root = r @ [sep]" using True by (metis append_butlast_last_id)
    have "os_path_join extract_root (join_sep xs) = r @ sep # join_sep xs"
      using na jne r True by (simp add: os_path_join_def isabs_def)
    moreover have "split_sep extract_root = split_sep r @ [[]]"
      using r split_sep_append[of r "[]"] by simp
    ultimately show ?thesis
      using sp v by (simp add: abs_comps_def split_sep_append norm_comps_append norm_comps_valid)
  next
    case False
    from a have "extract_root \<noteq> []" by (simp add: isabs_def)
    then have "os_path_join extract_root (join_sep xs) = extract_root @ sep # join_sep xs"
      using na jne False by (simp add: os_path_join_def isabs_def)
    then show ?thesis
      using sp v by (simp add: abs_comps_def split_sep_append norm_comps_append norm_comps_valid)
  qed
qed

lemma valid_names_no_dotdot: "list_all valid_name xs \<Longrightarrow> ''..'' \<notin> set xs"
  by (induction xs) (auto simp: valid_name_def)

section \<open>Lemmas on the filesystem\<close>

lemma map_of_put_entry: "map_of (put_entry s v es) = (map_of es)(s := v)"
proof (cases v)
  case None
  have "map_of (filter (\<lambda>e. fst e \<noteq> s) es) = (map_of es)(s := None)"
    by (induction es) (auto simp: fun_eq_iff)
  with None show ?thesis by (simp add: put_entry_def)
next
  case (Some n)
  show ?thesis
  proof (cases "map_of es s")
    case None
    then have "map_of (es @ [(s, n)]) = (map_of es)(s \<mapsto> n)"
      by (auto simp: fun_eq_iff map_add_def split: option.splits)
    with None Some show ?thesis by (simp add: put_entry_def)
  next
    case (Some c)
    have "map_of (map (\<lambda>e. if fst e = s then (s, n) else e) es) x =
            (if x = s \<and> map_of es s \<noteq> None then Some n else map_of es x)" for x
      by (induction es) auto
    with Some \<open>v = Some n\<close> show ?thesis by (auto simp: put_entry_def fun_eq_iff)
  qed
qed

lemma wf_entries_iff: "wf_entries es \<longleftrightarrow> (\<forall>(d, c) \<in> set es. valid_name d \<and> wf_node c)"
  by (induction es) auto

lemma wf_put_entry:
  assumes "wf_entries es" "distinct (map fst es)"
      and "map_of es s = None \<longrightarrow> v \<noteq> None \<longrightarrow> valid_name s"
      and "\<forall>n. v = Some n \<longrightarrow> wf_node n"
  shows "wf_entries (put_entry s v es) \<and> distinct (map fst (put_entry s v es))"
proof (cases v)
  case None
  then show ?thesis using assms by (auto simp: put_entry_def wf_entries_iff distinct_map_filter)
next
  case (Some n)
  show ?thesis
  proof (cases "map_of es s")
    case None
    then have "s \<notin> fst ` set es" by (simp add: map_of_eq_None_iff)
    with None Some assms show ?thesis by (auto simp: put_entry_def wf_entries_iff)
  next
    case (Some c)
    then have vs: "valid_name s" using assms(1) by (auto simp: wf_entries_iff dest: map_of_SomeD)
    have m: "map (fst \<circ> (\<lambda>e. if fst e = s then (s, n) else e)) es = map fst es"
      by (induction es) auto
    show ?thesis using Some \<open>v = Some n\<close> assms vs
      by (auto simp: m put_entry_def wf_entries_iff split: if_splits)
  qed
qed

lemma wf_lookup: "wf_node n \<Longrightarrow> lookup n p = Some m \<Longrightarrow> wf_node m"
proof (induction n p arbitrary: m rule: lookup.induct)
  case (1 n) then show ?case by simp
next
  case (2 i s ss) then show ?case by simp
next
  case (3 es s ss)
  from 3(3) obtain c where c: "map_of es s = Some c" "lookup c ss = Some m"
    by (auto split: option.splits)
  with 3(2) have "wf_node c" by (auto simp: wf_entries_iff dest: map_of_SomeD)
  with 3(1) c show ?case by simp
qed

lemma wf_store:
  "wf_node n \<Longrightarrow> \<forall>m. v = Some m \<longrightarrow> wf_node m \<Longrightarrow> p \<noteq> [] \<longrightarrow> v \<noteq> None \<longrightarrow> valid_name (last p)
     \<Longrightarrow> wf_node (store p v n)"
proof (induction p v n rule: store.induct)
  case (1 v n) then show ?case by (cases v) auto
next
  case (2 s ss v i) then show ?case by simp
next
  case (3 s ss v es)
  show ?case
  proof (cases "ss = []")
    case True
    with 3 wf_put_entry[of es s v] show ?thesis by auto
  next
    case False
    show ?thesis
    proof (cases "map_of es s")
      case None
      with False 3 show ?thesis by simp
    next
      case (Some c)
      with 3(2) have "wf_node c" by (auto simp: wf_entries_iff dest: map_of_SomeD)
      with 3(1)[OF False Some] 3(3,4) False have "wf_node (store ss v c)" by simp
      with wf_put_entry[of es s "Some (store ss v c)"] 3(2) Some False show ?thesis by auto
    qed
  qed
qed

lemma wf_makedirs:
  "wf_node n \<Longrightarrow> list_all valid_name p \<Longrightarrow> makedirs_node p n = Inr n' \<Longrightarrow> wf_node n'"
proof (induction p n arbitrary: n' rule: makedirs_node.induct)
  case (1 es) then show ?case by auto
next
  case (2 i) then show ?case by simp
next
  case (3 s ss i) then show ?case by simp
next
  case (4 s ss es)
  let ?c = "case map_of es s of None \<Rightarrow> Dir [] | Some c \<Rightarrow> c"
  from 4(4) obtain c' where c': "makedirs_node ss ?c = Inr c'" "n' = Dir (put_entry s (Some c') es)"
    by (auto split: sum.splits)
  have "wf_node ?c" using 4(2) by (auto simp: wf_entries_iff split: option.splits dest: map_of_SomeD)
  with 4(1)[OF this _ c'(1)] 4(3) have "wf_node c'" by simp
  with wf_put_entry[of es s "Some c'"] 4(2,3) c'(2) show ?case by auto
qed

lemma lookup_store_new:
  "p \<noteq> [] \<Longrightarrow> lookup n (butlast p) = Some (Dir es) \<Longrightarrow> lookup (store p (Some v) n) p = Some v"
proof (induction p "Some v" n arbitrary: es rule: store.induct)
  case (1 n) then show ?case by simp
next
  case (2 s ss i)
  then show ?case by (cases ss) auto
next
  case (3 s ss es0)
  show ?case
  proof (cases "ss = []")
    case True
    then show ?thesis by (simp add: map_of_put_entry)
  next
    case False
    with 3(3) obtain c where c: "map_of es0 s = Some c" "lookup c (butlast ss) = Some (Dir es)"
      by (auto split: option.splits)
    with 3(1)[OF False c(1) False c(2)] False show ?thesis by (simp add: map_of_put_entry)
  qed
qed

lemma lookup_store_old:
  "p \<noteq> [] \<Longrightarrow> lookup n p = Some x \<Longrightarrow> lookup (store p (Some v) n) p = Some v"
proof (induction p "Some v" n rule: store.induct)
  case (1 n) then show ?case by simp
next
  case (2 s ss i) then show ?case by simp
next
  case (3 s ss es0)
  show ?case
  proof (cases "ss = []")
    case True
    then show ?thesis by (simp add: map_of_put_entry)
  next
    case False
    with 3(3) obtain c where c: "map_of es0 s = Some c" "lookup c ss = Some x"
      by (auto split: option.splits)
    with 3(1)[OF False c(1) False c(2)] False show ?thesis by (simp add: map_of_put_entry)
  qed
qed

lemma split_sep_snoc:
  "sep \<notin> set b \<Longrightarrow> split_sep (a @ b) = butlast (split_sep a) @ [last (split_sep a) @ b]"
proof (induction a)
  case Nil
  then show ?case by (simp add: split_sep_no_sep)
next
  case (Cons c a)
  then show ?case by (cases "split_sep a") (auto split: list.splits)
qed

lemma last_pure_parts_zip:
  "pure_parts (a @ ''.zip'') \<noteq> [] \<and> valid_name (last (pure_parts (a @ ''.zip'')))"
proof -
  let ?l = "last (split_sep a) @ ''.zip''"
  have sp: "split_sep (a @ ''.zip'') = butlast (split_sep a) @ [?l]"
    by (rule split_sep_snoc) (simp add: sep_def)
  have "sep \<notin> set (last (split_sep a))"
    using split_sep_no_sep_mem[of "last (split_sep a)" a] by simp
  then have v: "valid_name ?l" by (auto simp: valid_name_def sep_def)
  have k: "?l \<noteq> [] \<and> ?l \<noteq> ''.''" by auto
  have "pure_parts (a @ ''.zip'') = filter (\<lambda>c. c \<noteq> [] \<and> c \<noteq> ''.'') (butlast (split_sep a)) @ [?l]"
    unfolding pure_parts_def sp using k by simp
  then show ?thesis using v by simp
qed

lemma zip_backup_path_last:
  assumes "list_all valid_name source_path"
  shows "zip_backup_path source_path dest_path z ts \<noteq> [] \<and> valid_name (last (zip_backup_path source_path dest_path z ts))"
proof -
  have "\<exists>u. (if endswith z ''.zip'' then z else z @ ''.zip'') = u @ ''.zip''"
  proof (cases "endswith z ''.zip''")
    case True
    then obtain zs where "z = zs @ ''.zip''" by (auto simp: endswith_def suffix_def)
    with True show ?thesis by auto
  next
    case False
    then show ?thesis by auto
  qed
  then obtain u where u: "(if endswith z ''.zip'' then z else z @ ''.zip'') = u @ ''.zip''" ..
  let ?s = "path_name source_path @ ''_'' @ ts @ ''_'' @ u @ ''.zip''"
  have hd: "\<not> (?s \<noteq> [] \<and> hd ?s = sep)"
  proof (cases "source_path = []")
    case True then show ?thesis by (simp add: path_name_def sep_def)
  next
    case False
    then have "valid_name (last source_path)" using assms by (simp add: list_all_iff)
    then show ?thesis using False valid_name_hd[of "last source_path"] by (simp add: path_name_def)
  qed
  have "?s = (path_name source_path @ ''_'' @ ts @ ''_'' @ u) @ ''.zip''" by simp
  then have pp: "pure_parts ?s \<noteq> [] \<and> valid_name (last (pure_parts ?s))"
    using last_pure_parts_zip[of "path_name source_path @ ''_'' @ ts @ ''_'' @ u"] by simp
  have "zip_backup_path source_path dest_path z ts = dest_path @ pure_parts ?s"
    using u hd by (simp add: zip_backup_path_def Let_def path_div_def)
  then show ?thesis using pp by simp
qed

lemma backup_zip_archive:
  assumes wf: "wf_node fs" and vs: "list_all valid_name source_path" and vd: "list_all valid_name dest_path"
      and z: "zip_file \<noteq> []"
      and run: "backup_directory fs source_path dest_path (Some zip_file) pats ts now = (Inr (Some backup_path), fs')"
  shows "\<exists>tree. wf_node tree \<and>
           archive_at fs' (zip_backup_path source_path dest_path zip_file ts) = Some (snd (zip_entries pats source_path tree))"
proof -
  let ?bp = "zip_backup_path source_path dest_path zip_file ts"
  from zip_backup_path_last[OF vs] have bpne: "?bp \<noteq> []" and bpv: "valid_name (last ?bp)" by auto
  from run obtain r where body: "backup_body fs source_path dest_path (Some zip_file) pats ts now = (Inr r, fs')"
    by (auto simp: backup_directory_def split: prod.splits sum.splits if_splits)
  from body z obtain fs1 where mk: "os_makedirs fs dest_path = Inr fs1"
    and bz: "backup_zip fs1 source_path ?bp pats now = (Inr r, fs')"
    by (auto simp: backup_body_def split: if_splits sum.splits)
  have wf1: "wf_node fs1" using wf_makedirs[OF wf vd] mk by (simp add: os_makedirs_def)
  from bz obtain fs2 where ow: "open_write fs1 ?bp (zip_info now []) = Inr fs2"
    by (auto simp: backup_zip_def split: sum.splits)
  then obtain es where par: "lookup fs1 (butlast ?bp) = Some (Dir es)"
    and fs2: "fs2 = store ?bp (Some (File (zip_info now []))) fs1"
    by (auto simp: open_write_def split: if_splits option.splits node.splits)
  have wf2: "wf_node fs2" unfolding fs2 using wf1 bpv by (intro wf_store) auto
  have lk2: "lookup fs2 ?bp = Some (File (zip_info now []))"
    unfolding fs2 using lookup_store_new[OF bpne par] .
  show ?thesis
  proof (cases "lookup fs2 source_path")
    case None
    with bz ow have "fs' = fs2" by (simp add: backup_zip_def)
    with lk2 have "archive_at fs' ?bp = Some []" by (simp add: archive_at_def zip_info_def)
    moreover have "snd (zip_entries pats source_path (File (zip_info now []))) = []"
      by (simp add: zip_entries_def)
    ultimately show ?thesis by (intro exI[of _ "File (zip_info now [])"]) simp
  next
    case (Some tree)
    have wft: "wf_node tree" using wf_lookup[OF wf2 Some] .
    obtain err zipf where ze: "zip_entries pats source_path tree = (err, zipf)"
      by (cases "zip_entries pats source_path tree")
    with bz ow Some have "fs' = store ?bp (Some (File (zip_info now zipf))) fs2"
      by (auto simp: backup_zip_def Let_def split: option.splits)
    with lookup_store_old[OF bpne lk2] have "lookup fs' ?bp = Some (File (zip_info now zipf))" by simp
    then have "archive_at fs' ?bp = Some zipf" by (simp add: archive_at_def zip_info_def)
    with wft ze show ?thesis by (intro exI[of _ tree]) simp
  qed
qed

section \<open>Lemmas on organize_files\<close>

text \<open>
  Rule tables whose destinations are folders below the directory: each is a relative
  path with at least one component and no \<open>..\<close>.
\<close>

definition proper_rules :: "(string \<times> string) list \<Rightarrow> bool" where
  "proper_rules rules =
     list_all (\<lambda>rule. \<not> isabs (snd rule) \<and> pure_parts (snd rule) \<noteq> [] \<and> ''..'' \<notin> set (pure_parts (snd rule)))
       rules"

text \<open>What \<open>store\<close> and \<open>os.makedirs\<close> leave as it was.\<close>

lemma lookup_append:
  "lookup fs (p @ r) = (case lookup fs p of None \<Rightarrow> None | Some n \<Rightarrow> lookup n r)"
  by (induction fs p rule: lookup.induct) (auto split: option.splits)

lemma lookup_below_file:
  "lookup fs p = Some (File i) \<Longrightarrow> lookup fs (p @ r) = Some y \<Longrightarrow> r = []"
  by (cases r) (auto simp: lookup_append)

lemma is_file_iff: "is_file fs p \<longleftrightarrow> (\<exists>i. lookup fs p = Some (File i))"
  by (auto simp: is_file_def split: option.splits node.splits)

lemma is_dir_iff: "is_dir fs p \<longleftrightarrow> (\<exists>es. lookup fs p = Some (Dir es))"
  by (auto simp: is_dir_def split: option.splits node.splits)

lemma lookup_store_None: "p \<noteq> [] \<Longrightarrow> lookup (store p None fs) p = None"
  by (induction p "None :: node option" fs rule: store.induct)
     (auto simp: map_of_put_entry split: option.splits)

lemma lookup_store_other:
  "\<not> prefix p q \<Longrightarrow>
     (lookup (store p v fs) q = Some (File i)) = (lookup fs q = Some (File i))
     \<and> is_dir (store p v fs) q = is_dir fs q"
proof (induction p v fs arbitrary: q rule: store.induct)
  case (1 v n)
  then show ?case by simp
next
  case (2 s ss v i)
  show ?case by simp
next
  case (3 s ss v es)
  show ?case
  proof (cases q)
    case Nil
    then show ?thesis by (auto simp: is_dir_def split: option.splits)
  next
    case (Cons x xs)
    show ?thesis
    proof (cases "x = s")
      case False
      with Cons show ?thesis by (auto simp: is_dir_def map_of_put_entry split: option.splits)
    next
      case True
      with "3.prems" Cons have np: "\<not> prefix ss xs" by simp
      then have ne: "ss \<noteq> []" by auto
      show ?thesis
      proof (cases "map_of es s")
        case None
        with ne show ?thesis by simp
      next
        case (Some c)
        from "3.IH"[OF ne Some np] Cons True ne Some show ?thesis
          by (simp add: is_dir_def map_of_put_entry)
      qed
    qed
  qed
qed

lemma lookup_store_apart:
  "\<not> prefix p q \<Longrightarrow> \<not> prefix q p \<Longrightarrow> lookup (store p v fs) q = lookup fs q"
proof (induction p v fs arbitrary: q rule: store.induct)
  case (1 v n)
  then show ?case by simp
next
  case (2 s ss v i)
  show ?case by simp
next
  case (3 s ss v es)
  from "3.prems" obtain x xs where q: "q = x # xs" by (cases q) auto
  show ?case
  proof (cases "x = s")
    case False
    with q show ?thesis by (auto simp: map_of_put_entry split: option.splits)
  next
    case True
    with "3.prems" q have np: "\<not> prefix ss xs" "\<not> prefix xs ss" by simp_all
    then have ne: "ss \<noteq> []" by auto
    show ?thesis
    proof (cases "map_of es s")
      case None
      with ne show ?thesis by simp
    next
      case (Some c)
      from "3.IH"[OF ne Some np] q True ne Some show ?thesis by (simp add: map_of_put_entry)
    qed
  qed
qed

lemma makedirs_keeps_files:
  "makedirs_node p n = Inr n' \<Longrightarrow> (lookup n' q = Some (File i)) = (lookup n q = Some (File i))"
proof (induction p n arbitrary: q n' rule: makedirs_node.induct)
  case (1 es)
  then show ?case by simp
next
  case (2 i)
  then show ?case by simp
next
  case (3 s ss i)
  then show ?case by simp
next
  case (4 s ss es)
  let ?c = "case map_of es s of None \<Rightarrow> Dir [] | Some c \<Rightarrow> c"
  from "4.prems" obtain c' where c': "makedirs_node ss ?c = Inr c'"
    and n': "n' = Dir (put_entry s (Some c') es)"
    by (auto split: sum.splits)
  show ?case
  proof (cases q)
    case Nil
    then show ?thesis using n' by simp
  next
    case (Cons x xs)
    show ?thesis
    proof (cases "x = s")
      case False
      with Cons n' show ?thesis by (simp add: map_of_put_entry)
    next
      case True
      have "(lookup c' xs = Some (File i)) = (lookup ?c xs = Some (File i))"
        using "4.IH"[OF c'] .
      moreover have "lookup (Dir []) xs \<noteq> Some (File i)" by (cases xs) auto
      ultimately show ?thesis using Cons True n'
        by (auto simp: map_of_put_entry split: option.splits)
    qed
  qed
qed

lemma makedirs_is_dir: "makedirs_node p n = Inr n' \<Longrightarrow> is_dir n' p"
proof (induction p n arbitrary: n' rule: makedirs_node.induct)
  case (1 es)
  then show ?case by (auto simp: is_dir_def)
next
  case (2 i)
  then show ?case by simp
next
  case (3 s ss i)
  then show ?case by simp
next
  case (4 s ss es)
  let ?c = "case map_of es s of None \<Rightarrow> Dir [] | Some c \<Rightarrow> c"
  from "4.prems" obtain c' where c': "makedirs_node ss ?c = Inr c'"
    and n': "n' = Dir (put_entry s (Some c') es)"
    by (auto split: sum.splits)
  from "4.IH"[OF c'] n' show ?case by (simp add: is_dir_def map_of_put_entry)
qed

text \<open>Names, stems and suffixes.\<close>

lemma pure_parts_valid: "valid_name s \<Longrightarrow> pure_parts s = [s]"
  by (simp add: pure_parts_def split_sep_no_sep valid_name_def)

lemma path_div_valid: "valid_name s \<Longrightarrow> path_div p s = p @ [s]"
  using valid_name_hd[of s] by (simp add: path_div_def pure_parts_valid)

lemma stem_suffix: "path_stem name @ path_suffix name = name"
  by (simp add: path_stem_def path_suffix_def split: option.splits)

lemma set_stem: "set (path_stem name) \<subseteq> set name"
  by (auto simp: path_stem_def split: option.splits dest: in_set_takeD)

lemma set_suffix: "set (path_suffix name) \<subseteq> set name"
  by (auto simp: path_suffix_def split: option.splits dest: in_set_dropD)

lemma stamped_valid:
  assumes "valid_name name" and "sep \<notin> set timestamp"
  shows "valid_name (path_stem name @ ''_'' @ timestamp @ path_suffix name)"
proof -
  let ?s = "path_stem name @ ''_'' @ timestamp @ path_suffix name"
  have "sep \<notin> set ?s" using assms set_stem[of name] set_suffix[of name]
    by (auto simp: valid_name_def sep_def)
  moreover have u: "CHR ''_'' \<in> set ?s" by simp
  have "CHR ''_'' \<notin> set ''.''" "CHR ''_'' \<notin> set ''..''" by simp_all
  with u have "?s \<noteq> ''.''" "?s \<noteq> ''..''" by metis+
  ultimately show ?thesis by (simp add: valid_name_def)
qed

lemma stamped_neq: "path_stem name @ ''_'' @ timestamp @ path_suffix name \<noteq> name"
proof
  assume "path_stem name @ ''_'' @ timestamp @ path_suffix name = name"
  then have "length (path_stem name @ ''_'' @ timestamp @ path_suffix name) = length (path_stem name @ path_suffix name)"
    by (simp only: stem_suffix)
  then show False by simp
qed

lemma stamped_not_abs:
  assumes "valid_name name"
  shows "\<not> (path_stem name @ ''_'' @ timestamp @ path_suffix name \<noteq> []
             \<and> hd (path_stem name @ ''_'' @ timestamp @ path_suffix name) = sep)"
proof (cases "path_stem name = []")
  case True
  then show ?thesis by (simp add: sep_def)
next
  case False
  then have "hd (path_stem name) \<in> set name" using set_stem[of name] by (meson hd_in_set subsetD)
  with assms have "hd (path_stem name) \<noteq> sep" by (auto simp: valid_name_def)
  with False show ?thesis by simp
qed

text \<open>The listing of a directory.\<close>

lemma match_star: "match_toks [Star] s"
  by (induction s) auto

lemma fnmatch_star: "fnmatch name ''*''"
  by (simp add: fnmatch_def match_star)

lemma no_double_star: "\<not> sublist ''**'' ''*''"
  by code_simp

lemma glob_star:
  "path_glob fs p ''*'' = Inr (if is_dir fs p then map (\<lambda>e. p @ [fst e]) (scandir fs p) else [])"
proof -
  have pp: "pure_parts ''*'' = [''*'']" by (simp add: pure_parts_def sep_def)
  have sel: "select_from fs [''*''] p = map (\<lambda>e. p @ [fst e]) (scandir fs p)"
    by (simp add: is_wildcard_pattern_def fnmatch_star concat_map_singleton comp_def)
  show ?thesis
    by (simp add: path_glob_def pp sel no_double_star sep_def Let_def del: select_from.simps)
qed

lemma top_file_listed:
  assumes "is_file fs (dir_path @ [x])"
  shows "x \<in> fst ` set (scandir fs dir_path)"
proof -
  from assms obtain i where "lookup fs (dir_path @ [x]) = Some (File i)" by (auto simp: is_file_iff)
  then obtain n where n: "lookup fs dir_path = Some n" and x: "lookup n [x] = Some (File i)"
    by (auto simp: lookup_append split: option.splits)
  from x obtain es where es: "n = Dir es" and "map_of es x = Some (File i)"
    by (cases n) (auto split: option.splits)
  then have "(x, File i) \<in> set es" by (auto dest: map_of_SomeD)
  with n es show ?thesis by (force simp: scandir_def)
qed

lemma proper_default: "proper_rules default_rules"
  by code_simp

lemma proper_rulesD:
  "proper_rules rules \<Longrightarrow> map_of rules k = Some folder \<Longrightarrow>
     \<not> isabs folder \<and> pure_parts folder \<noteq> []"
  by (auto simp: proper_rules_def list_all_iff dest!: map_of_SomeD)

text \<open>The loop body on a file that has a rule, and what a run leaves at the top of the directory.\<close>

lemma organize_file_ruled:
  assumes "is_file fs (dir_path @ [y])" and "valid_name y"
      and "map_of rules (lstrip_dots (lower (path_suffix y))) = Some folder" and "\<not> isabs folder"
  shows "organize_file clock dir_path rules (dir_path @ [y]) fs tick =
     (case os_makedirs fs (dir_path @ pure_parts folder) of
        Inl e \<Rightarrow> (Inl e, fs)
      | Inr fs1 \<Rightarrow>
          (case shutil_move fs1 (dir_path @ [y])
                  (if exists fs1 (dir_path @ pure_parts folder @ [y])
                   then path_div (dir_path @ pure_parts folder)
                          (path_stem y @ ''_'' @ clock tick @ path_suffix y)
                   else dir_path @ pure_parts folder @ [y]) of
             Inl e \<Rightarrow> (Inl e, fs1)
           | Inr fs2 \<Rightarrow>
               (Inr (True, if exists fs1 (dir_path @ pure_parts folder @ [y]) then Suc tick else tick), fs2)))"
proof -
  have df: "path_div dir_path folder = dir_path @ pure_parts folder"
    using assms(4) by (auto simp: path_div_def isabs_def)
  show ?thesis
    using assms(1,3)
    by (simp add: organize_file_def path_name_def Let_def df path_div_valid[OF assms(2)]
             split: sum.splits)
qed

lemma shutil_move_result:
  assumes "shutil_move fs src dst = Inr fs'"
  shows "\<exists>real n. (real = dst \<and> \<not> is_dir fs dst \<or> real = dst @ [path_name src] \<and> is_dir fs dst)
           \<and> lookup fs src = Some n
           \<and> (fs' = fs \<and> src = real \<or> fs' = store real (Some n) (store src None fs))"
  using assms
  by (auto simp: shutil_move_def os_rename_def Let_def split: if_splits option.splits)

lemma organize_file_top:
  assumes run: "organize_file clock dir_path rules (dir_path @ [y]) fs tick = (Inr r, fs')"
      and pr: "proper_rules rules" and vy: "valid_name y"
      and f': "is_file fs' (dir_path @ [x])"
  shows "is_file fs (dir_path @ [x])
         \<and> (x = y \<longrightarrow> map_of rules (lstrip_dots (lower (path_suffix y))) = None)"
proof (cases "is_file fs (dir_path @ [y])")
  case False
  with run have "fs' = fs" by (simp add: organize_file_def)
  with f' False show ?thesis by auto
next
  case True
  show ?thesis
  proof (cases "map_of rules (lstrip_dots (lower (path_suffix y)))")
    case None
    with run True have "fs' = fs" by (simp add: organize_file_def path_name_def Let_def)
    with f' None show ?thesis by simp
  next
    case (Some folder)
    from proper_rulesD[OF pr Some] have nab: "\<not> isabs folder" and pne: "pure_parts folder \<noteq> []"
      by auto
    let ?df = "dir_path @ pure_parts folder"
    let ?src = "dir_path @ [y]"
    let ?s = "path_stem y @ ''_'' @ clock tick @ path_suffix y"
    let ?dy = "dir_path @ pure_parts folder @ [y]"
    let ?dst = "\<lambda>fs1. if exists fs1 ?dy then path_div ?df ?s else ?dy"
    from run organize_file_ruled[OF True vy Some nab, where clock = clock and tick = tick]
    obtain fs1 where mk: "os_makedirs fs ?df = Inr fs1"
      and mv: "shutil_move fs1 ?src (?dst fs1) = Inr fs'"
      by (auto split: sum.splits)
    have dd: "is_dir fs1 ?df" using makedirs_is_dir mk by (simp add: os_makedirs_def)
    have "path_div ?df ?s = ?df @ pure_parts ?s"
      using stamped_not_abs[OF vy, of "clock tick"] by (simp add: path_div_def)
    then obtain ps where dst: "?dst fs1 = ?df @ ps" by (cases "exists fs1 ?dy") auto
    from shutil_move_result[OF mv] obtain real n where
      real: "real = ?dst fs1 \<and> \<not> is_dir fs1 (?dst fs1) \<or> real = ?dst fs1 @ [path_name ?src] \<and> is_dir fs1 (?dst fs1)"
      and fs': "fs' = fs1 \<and> ?src = real \<or> fs' = store real (Some n) (store ?src None fs1)"
      by blast
    have len: "length real > length dir_path + 1"
    proof (cases "ps = []")
      case True
      with dst dd real have "real = ?df @ [path_name ?src]" by auto
      with pne show ?thesis by (cases "pure_parts folder") auto
    next
      case False
      with real dst pne show ?thesis by (cases "pure_parts folder"; cases ps) auto
    qed
    then have "?src \<noteq> real" by auto
    with fs' have fs'': "fs' = store real (Some n) (store ?src None fs1)" by simp
    have np: "\<not> prefix real (dir_path @ [x])"
      using len by (auto dest: prefix_length_le)
    from f' obtain i where "lookup fs' (dir_path @ [x]) = Some (File i)" by (auto simp: is_file_iff)
    with lookup_store_other[OF np] fs''
    have l1: "lookup (store ?src None fs1) (dir_path @ [x]) = Some (File i)" by simp
    have xy: "x \<noteq> y"
    proof
      assume "x = y"
      with l1 lookup_store_None[of ?src fs1] show False by simp
    qed
    then have "\<not> prefix ?src (dir_path @ [x])" by auto
    from lookup_store_other[OF this] l1 have "lookup fs1 (dir_path @ [x]) = Some (File i)" by simp
    with makedirs_keeps_files[OF mk[unfolded os_makedirs_def]]
    have "lookup fs (dir_path @ [x]) = Some (File i)" by simp
    with xy show ?thesis by (auto simp: is_file_iff)
  qed
qed

lemma organize_loop_top:
  assumes "organize_loop clock dir_path rules listing fs c tick = (Inr n, fs')"
      and "proper_rules rules"
      and "\<forall>p\<in>set listing. \<exists>y. p = dir_path @ [y] \<and> valid_name y"
      and "is_file fs' (dir_path @ [x])"
  shows "is_file fs (dir_path @ [x])
         \<and> (dir_path @ [x] \<in> set listing \<longrightarrow> map_of rules (lstrip_dots (lower (path_suffix x))) = None)"
  using assms
proof (induction listing arbitrary: fs c tick)
  case Nil
  then show ?case by simp
next
  case (Cons p listing)
  from Cons.prems(3) obtain y where p: "p = dir_path @ [y]" and vy: "valid_name y" by auto
  from Cons.prems(1) obtain moved tick' fs1 where
    st: "organize_file clock dir_path rules p fs tick = (Inr (moved, tick'), fs1)" and
    lp: "organize_loop clock dir_path rules listing fs1 (if moved then c + 1 else c) tick' = (Inr n, fs')"
    by (auto split: prod.splits sum.splits)
  from Cons.prems(3) have "\<forall>p\<in>set listing. \<exists>y. p = dir_path @ [y] \<and> valid_name y" by simp
  from Cons.IH[OF lp Cons.prems(2) this Cons.prems(4)]
  have a: "is_file fs1 (dir_path @ [x])"
    and b: "dir_path @ [x] \<in> set listing \<longrightarrow> map_of rules (lstrip_dots (lower (path_suffix x))) = None"
    by auto
  from organize_file_top[OF st[unfolded p] Cons.prems(2) vy a]
  have "is_file fs (dir_path @ [x])"
    and "x = y \<longrightarrow> map_of rules (lstrip_dots (lower (path_suffix y))) = None" by auto
  with b p show ?case by auto
qed

lemma organize_loop_nothing:
  "\<forall>p\<in>set listing. is_file fs p \<longrightarrow> map_of rules (lstrip_dots (lower (path_suffix (path_name p)))) = None \<Longrightarrow>
   organize_loop clock dir_path rules listing fs c tick = (Inr c, fs)"
  by (induction listing) (auto simp: organize_file_def Let_def)

lemma listing_valid:
  assumes "wf_node fs"
  shows "\<forall>p\<in>set (map (\<lambda>e. dir_path @ [fst e]) (scandir fs dir_path)). \<exists>y. p = dir_path @ [y] \<and> valid_name y"
proof (cases "lookup fs dir_path")
  case None
  then show ?thesis by (simp add: scandir_def)
next
  case (Some n)
  show ?thesis
  proof (cases n)
    case (File i)
    with Some show ?thesis by (simp add: scandir_def)
  next
    case (Dir es)
    with Some wf_lookup[OF assms Some] have "wf_entries es" by simp
    then have "\<forall>e\<in>set es. valid_name (fst e)" by (auto simp: wf_entries_iff)
    with Some Dir show ?thesis by (simp add: scandir_def)
  qed
qed

lemma organize_file_ruled_at:
  assumes "is_file fs (dir_path @ [y])" and "valid_name y"
      and "map_of rules (lstrip_dots (lower (path_suffix y))) = Some folder"
  shows "organize_file clock dir_path rules (dir_path @ [y]) fs tick =
     (case os_makedirs fs (path_div dir_path folder) of
        Inl e \<Rightarrow> (Inl e, fs)
      | Inr fs1 \<Rightarrow>
          (case shutil_move fs1 (dir_path @ [y])
                  (if exists fs1 (path_div dir_path folder @ [y])
                   then path_div (path_div dir_path folder)
                          (path_stem y @ ''_'' @ clock tick @ path_suffix y)
                   else path_div dir_path folder @ [y]) of
             Inl e \<Rightarrow> (Inl e, fs1)
           | Inr fs2 \<Rightarrow>
               (Inr (True, if exists fs1 (path_div dir_path folder @ [y]) then Suc tick else tick), fs2)))"
  using assms(1,3)
  by (simp add: organize_file_def path_name_def Let_def path_div_valid[OF assms(2)]
           split: sum.splits)

section \<open>Lemmas on a zip-mode run\<close>

lemma is_Exception_all: "is_Exception e"
  by (cases e) simp_all



text \<open>The walk reaches every file that is not excluded, and an unreadable one stops the loop.\<close>

lemma zip_files_fails:
  "(f, i) \<in> set files \<Longrightarrow> \<not> excluded pats (os_path_join rd f) \<Longrightarrow> \<not> f_readable i
     \<Longrightarrow> fst (zip_files pats source rd files z) \<noteq> None"
  by (induction files arbitrary: z) (auto simp: Let_def)

lemma zip_walk_fails:
  "t \<in> set ts \<Longrightarrow> (f, i) \<in> set (snd (snd t)) \<Longrightarrow> \<not> excluded pats (os_path_join (fst t) f)
     \<Longrightarrow> \<not> f_readable i \<Longrightarrow> fst (zip_walk pats source ts z) \<noteq> None"
proof (induction ts arbitrary: z)
  case Nil
  then show ?case by simp
next
  case (Cons a ts)
  obtain rd dirs files where a: "a = (rd, dirs, files)" by (cases a)
  obtain e1 z1 where zf: "zip_files pats source rd files z = (e1, z1)"
    by (cases "zip_files pats source rd files z")
  show ?case
  proof (cases e1)
    case (Some ex)
    with a zf show ?thesis by simp
  next
    case None
    have "t \<noteq> a"
    proof
      assume "t = a"
      with Cons.prems a have "(f, i) \<in> set files" "\<not> excluded pats (os_path_join rd f)" by auto
      from zip_files_fails[OF this Cons.prems(4), of source z] zf None show False by simp
    qed
    with Cons.prems have "t \<in> set ts" by simp
    from Cons.IH[OF this Cons.prems(2,3,4), of z1] a zf None show ?thesis by simp
  qed
qed

lemma lookup_file_nonempty: "lookup (File j) (ds @ [f]) = None"
  by (cases ds) auto

lemma walk_complete_aux:
  "(\<forall>base ds f i. wf_node n \<longrightarrow> list_all valid_name base \<longrightarrow> rd = path_str base \<longrightarrow>
       lookup n (ds @ [f]) = Some (File i) \<longrightarrow>
       (\<forall>p. p \<noteq> [] \<and> prefix p ds \<longrightarrow> \<not> excluded pats (path_str (base @ p))) \<longrightarrow>
       (\<exists>t \<in> set (walk pats rd n). fst t = path_str (base @ ds) \<and> (f, i) \<in> set (snd (snd t))))"
  "(\<forall>base d ds f i. wf_entries es \<longrightarrow> distinct (map fst es) \<longrightarrow> list_all valid_name base \<longrightarrow>
       rd = path_str base \<longrightarrow>
       lookup (Dir es) ((d # ds) @ [f]) = Some (File i) \<longrightarrow>
       (\<forall>p. p \<noteq> [] \<and> prefix p (d # ds) \<longrightarrow> \<not> excluded pats (path_str (base @ p))) \<longrightarrow>
       (\<exists>t \<in> set (walk_dirs pats rd es). fst t = path_str (base @ d # ds) \<and> (f, i) \<in> set (snd (snd t))))"
proof (induction pats rd n and pats rd es rule: walk_walk_dirs.induct)
  case (1 pats rd j)
  then show ?case by (simp add: lookup_file_nonempty)
next
  case (2 pats rd es)
  show ?case
  proof (intro allI impI)
    fix base ds f i
    assume wf: "wf_node (Dir es)" and vb: "list_all valid_name base" and rd: "rd = path_str base"
      and lk: "lookup (Dir es) (ds @ [f]) = Some (File i)"
      and ne: "\<forall>p. p \<noteq> [] \<and> prefix p ds \<longrightarrow> \<not> excluded pats (path_str (base @ p))"
    show "\<exists>t \<in> set (walk pats rd (Dir es)). fst t = path_str (base @ ds) \<and> (f, i) \<in> set (snd (snd t))"
    proof (cases ds)
      case Nil
      with lk have "map_of es f = Some (File i)" by (auto split: option.splits)
      then have "(f, File i) \<in> set es" by (rule map_of_SomeD)
      then have fi: "(f, i) \<in> set (concat (map (\<lambda>e. case snd e of File i \<Rightarrow> [(fst e, i)] | Dir _ \<Rightarrow> []) es))"
        by (simp only: files_in_entries)
      define t where "t = (rd, [fst e. e \<leftarrow> es, is_dir_node (snd e), \<not> excluded pats (os_path_join rd (fst e))],
        concat (map (\<lambda>e. case snd e of File i \<Rightarrow> [(fst e, i)] | Dir _ \<Rightarrow> []) es))"
      have "t \<in> set (walk pats rd (Dir es))" unfolding t_def by simp
      moreover have "fst t = path_str (base @ ds)" using Nil rd by (simp add: t_def)
      moreover have "(f, i) \<in> set (snd (snd t))" using fi by (simp only: t_def snd_conv)
      ultimately show ?thesis by blast
    next
      case (Cons d ds')
      from wf have "wf_entries es" "distinct (map fst es)" by auto
      with 2 vb rd lk ne Cons
      obtain t where "t \<in> set (walk_dirs pats rd es)" "fst t = path_str (base @ d # ds')"
        "(f, i) \<in> set (snd (snd t))" by blast
      with Cons show ?thesis by auto
    qed
  qed
next
  case (3 pats rd)
  then show ?case by simp
next
  case (4 pats rd d0 c es)
  show ?case
  proof (intro allI impI)
    fix base d ds f i
    assume wf: "wf_entries ((d0, c) # es)" and dist: "distinct (map fst ((d0, c) # es))"
      and vb: "list_all valid_name base" and rd: "rd = path_str base"
      and lk: "lookup (Dir ((d0, c) # es)) ((d # ds) @ [f]) = Some (File i)"
      and ne: "\<forall>p. p \<noteq> [] \<and> prefix p (d # ds) \<longrightarrow> \<not> excluded pats (path_str (base @ p))"
    from wf have vd: "valid_name d0" and wfc: "wf_node c" and wfes: "wf_entries es" by auto
    have j: "os_path_join rd d0 = path_str (base @ [d0])"
      using rd vb vd by (simp add: os_path_join_path_str)
    show "\<exists>t \<in> set (walk_dirs pats rd ((d0, c) # es)). fst t = path_str (base @ d # ds) \<and> (f, i) \<in> set (snd (snd t))"
    proof (cases "d = d0")
      case True
      with lk have lkc: "lookup c (ds @ [f]) = Some (File i)" by simp
      then have dc: "is_dir_node c" by (cases c) (auto simp: lookup_file_nonempty)
      from ne[rule_format, of "[d]"] True j have nex: "\<not> excluded pats (os_path_join rd d0)" by simp
      have vb': "list_all valid_name (base @ [d0])" using vb vd by simp
      have ne': "\<forall>p. p \<noteq> [] \<and> prefix p ds \<longrightarrow> \<not> excluded pats (path_str ((base @ [d0]) @ p))"
      proof (intro allI impI)
        fix p assume "p \<noteq> [] \<and> prefix p ds"
        then have "d # p \<noteq> [] \<and> prefix (d # p) (d # ds)" by simp
        from ne[rule_format, OF this] True show "\<not> excluded pats (path_str ((base @ [d0]) @ p))" by simp
      qed
      from 4(1) dc nex wfc vb' j lkc ne'
      obtain t where "t \<in> set (walk pats (os_path_join rd d0) c)" "fst t = path_str ((base @ [d0]) @ ds)"
        "(f, i) \<in> set (snd (snd t))" by blast
      with dc nex True show ?thesis by auto
    next
      case False
      with lk have "lookup (Dir es) ((d # ds) @ [f]) = Some (File i)" by simp
      moreover from dist have "distinct (map fst es)" by simp
      ultimately obtain t where "t \<in> set (walk_dirs pats rd es)" "fst t = path_str (base @ d # ds)"
        "(f, i) \<in> set (snd (snd t))"
        using 4(2) wfes vb rd ne by blast
      then show ?thesis by auto
    qed
  qed
qed

lemma lookup_valid: "wf_node n \<Longrightarrow> lookup n p = Some m \<Longrightarrow> list_all valid_name p"
proof (induction n p rule: lookup.induct)
  case (1 n)
  then show ?case by simp
next
  case (2 i s ss)
  then show ?case by simp
next
  case (3 es s ss)
  from "3.prems"(2) obtain c where c: "map_of es s = Some c" and l: "lookup c ss = Some m"
    by (auto split: option.splits)
  from c have "(s, c) \<in> set es" by (rule map_of_SomeD)
  with "3.prems"(1) have "valid_name s" "wf_node c" by (auto dest: wf_entries_mem)
  with "3.IH"[OF c _ l] show ?case by simp
qed

lemma zip_entries_fails:
  assumes wf: "wf_node tree" and vs: "list_all valid_name source_path"
      and lk: "lookup tree (ds @ [f]) = Some (File i)" and ur: "\<not> f_readable i"
      and ne: "\<not> excluded pats (path_str (source_path @ ds @ [f]))"
      and nd: "\<forall>p. p \<noteq> [] \<and> prefix p ds \<longrightarrow> \<not> excluded pats (path_str (source_path @ p))"
  shows "fst (zip_entries pats source_path tree) \<noteq> None"
proof -
  from lookup_valid[OF wf lk] have vds: "list_all valid_name ds" and vf: "valid_name f" by auto
  from walk_complete_aux(1)[of tree "path_str source_path" pats] wf vs lk nd
  obtain t where t: "t \<in> set (walk pats (path_str source_path) tree)"
    and rt: "fst t = path_str (source_path @ ds)" and fi: "(f, i) \<in> set (snd (snd t))" by blast
  have "os_path_join (fst t) f = path_str (source_path @ ds @ [f])"
    using rt vs vds vf os_path_join_path_str[of "source_path @ ds" f] by simp
  with ne have "\<not> excluded pats (os_path_join (fst t) f)" by simp
  from zip_walk_fails[OF t fi this ur] show ?thesis by (simp add: zip_entries_def)
qed

lemma makedirs_keeps_none:
  "makedirs_node p n = Inr n' \<Longrightarrow> \<not> prefix q p \<Longrightarrow> (lookup n' q = None) = (lookup n q = None)"
proof (induction p n arbitrary: q n' rule: makedirs_node.induct)
  case (1 es)
  then show ?case by simp
next
  case (2 i)
  then show ?case by simp
next
  case (3 s ss i)
  then show ?case by simp
next
  case (4 s ss es)
  let ?c = "case map_of es s of None \<Rightarrow> Dir [] | Some c \<Rightarrow> c"
  from "4.prems" obtain c' where c': "makedirs_node ss ?c = Inr c'"
    and n': "n' = Dir (put_entry s (Some c') es)"
    by (auto split: sum.splits)
  from "4.prems"(2) obtain x xs where q: "q = x # xs" by (cases q) auto
  show ?case
  proof (cases "x = s")
    case False
    with q n' show ?thesis by (simp add: map_of_put_entry)
  next
    case True
    with "4.prems"(2) q have np: "\<not> prefix xs ss" by simp
    then have xne: "xs \<noteq> []" by auto
    have "(lookup c' xs = None) = (lookup ?c xs = None)"
      using "4.IH"[OF c' np] .
    moreover have "lookup (Dir []) xs = None" using xne by (cases xs) auto
    ultimately show ?thesis using q True n'
      by (auto simp: map_of_put_entry split: option.splits)
  qed
qed

lemma zip_backup_path_valid:
  assumes vs: "list_all valid_name source_path" and vz: "valid_name zip_file" and vt: "sep \<notin> set timestamp"
  shows "\<exists>name. valid_name name \<and> zip_backup_path source_path dest_path zip_file timestamp = dest_path @ [name]"
proof -
  define nm where "nm = path_name source_path @ ''_'' @ timestamp @ ''_''
                         @ (if endswith zip_file ''.zip'' then zip_file else zip_file @ ''.zip'')"
  have a: "sep \<notin> set (path_name source_path)"
    using vs by (cases "source_path = []") (auto simp: path_name_def valid_name_def list_all_iff)
  have c: "sep \<notin> set nm" using a vz vt by (auto simp: nm_def valid_name_def sep_def)
  have d: "CHR ''_'' \<in> set nm" by (simp add: nm_def)
  have "CHR ''_'' \<notin> set ''.''" "CHR ''_'' \<notin> set ''..''" "CHR ''_'' \<notin> set []" by simp_all
  with d have "nm \<noteq> ''.''" "nm \<noteq> ''..''" "nm \<noteq> []" by metis+
  with c have v: "valid_name nm" by (simp add: valid_name_def)
  from path_div_valid[OF v]
  have "zip_backup_path source_path dest_path zip_file timestamp = dest_path @ [nm]"
    by (simp add: zip_backup_path_def Let_def nm_def)
  with v show ?thesis by blast
qed

section \<open>Claims on backup_directory\<close>

text \<open>
  C1. Every entry path of the archive a zip-mode run of \<open>backup_directory\<close> produces is
  relative to the source root: it is not absolute, none of its segments is \<open>..\<close>, and
  joined to any absolute extraction root it normalises to a path below that root. The
  filesystem is well formed (names as the operating system gives them) and the source
  and destination are resolved paths.
\<close>

theorem backup_zip_entries_relative:
  assumes "wf_node fs" and "list_all valid_name source_path" and "list_all valid_name dest_path"
      and "zip_file \<noteq> []"
      and "backup_directory fs source_path dest_path (Some zip_file) exclude_patterns timestamp now
             = (Inr (Some backup_path), fs')"
      and "archive_at fs' (zip_backup_path source_path dest_path zip_file timestamp) = Some entries"
      and "arcname \<in> fst ` set entries"
  shows "\<not> isabs arcname \<and> ''..'' \<notin> set (split_sep arcname) \<and>
         (\<forall>extract_root. isabs extract_root \<longrightarrow>
            prefix (abs_comps extract_root) (abs_comps (os_path_join extract_root arcname)))"
proof -
  from backup_zip_archive[OF assms(1-5)] assms(6)
  obtain tree where wft: "wf_node tree" and en: "entries = snd (zip_entries exclude_patterns source_path tree)"
    by auto
  from assms(7) obtain d where "(arcname, d) \<in> set entries" by auto
  with en have "(arcname, d) \<in> set (snd (zip_entries exclude_patterns source_path tree))" by simp
  from zip_entries_sound[OF wft assms(2) this]
  obtain ds f where v: "list_all valid_name (ds @ [f])" and a: "arcname = join_sep (ds @ [f])"
    by blast
  have ne: "ds @ [f] \<noteq> []" by simp
  have 1: "\<not> isabs arcname" unfolding a using join_sep_not_abs[OF v ne] .
  have "split_sep arcname = ds @ [f]" unfolding a using split_sep_join_sep[OF v ne] .
  then have 2: "''..'' \<notin> set (split_sep arcname)" using valid_names_no_dotdot[OF v] by simp
  have 3: "prefix (abs_comps extract_root) (abs_comps (os_path_join extract_root arcname))"
    if "isabs extract_root" for extract_root
    unfolding a using abs_comps_join_rel[OF that v ne] by simp
  from 1 2 3 show ?thesis by blast
qed

theorem backup_zip_entries_relative_witness:
  "wf_node spec_fs \<and> list_all valid_name [''src''] \<and> list_all valid_name [''bak''] \<and> ''x'' \<noteq> []
   \<and> backup_directory spec_fs [''src''] [''bak''] (Some ''x'') [''*.log''] ''20240101_120000'' 1704110400
       = (Inr (Some ''/bak/src_20240101_120000_x.zip''),
          snd (backup_directory spec_fs [''src''] [''bak''] (Some ''x'') [''*.log''] ''20240101_120000'' 1704110400))
   \<and> archive_at (snd (backup_directory spec_fs [''src''] [''bak''] (Some ''x'') [''*.log''] ''20240101_120000'' 1704110400))
        (zip_backup_path [''src''] [''bak''] ''x'' ''20240101_120000'')
       = Some [(''a.txt'', Bytes ''A''), (''sub/c.txt'', Bytes ''C'')]
   \<and> ''sub/c.txt'' \<in> fst ` set [(''a.txt'', Bytes ''A''), (''sub/c.txt'', Bytes ''C'')]
   \<and> \<not> isabs ''sub/c.txt'' \<and> ''..'' \<notin> set (split_sep ''sub/c.txt'')
   \<and> isabs ''/out''
   \<and> prefix (abs_comps ''/out'') (abs_comps (os_path_join ''/out'' ''sub/c.txt''))"
proof -
  have h1: "wf_node spec_fs" by code_simp
  have h2: "list_all valid_name [''src'']" by code_simp
  have h3: "list_all valid_name [''bak'']" by code_simp
  have h4: "''x'' \<noteq> []" by simp
  have "fst (backup_directory spec_fs [''src''] [''bak''] (Some ''x'') [''*.log''] ''20240101_120000'' 1704110400)
          = Inr (Some ''/bak/src_20240101_120000_x.zip'')" by code_simp
  then have h5: "backup_directory spec_fs [''src''] [''bak''] (Some ''x'') [''*.log''] ''20240101_120000'' 1704110400
       = (Inr (Some ''/bak/src_20240101_120000_x.zip''),
          snd (backup_directory spec_fs [''src''] [''bak''] (Some ''x'') [''*.log''] ''20240101_120000'' 1704110400))"
    by (simp add: prod_eq_iff)
  have h6: "archive_at (snd (backup_directory spec_fs [''src''] [''bak''] (Some ''x'') [''*.log''] ''20240101_120000'' 1704110400))
        (zip_backup_path [''src''] [''bak''] ''x'' ''20240101_120000'')
       = Some [(''a.txt'', Bytes ''A''), (''sub/c.txt'', Bytes ''C'')]" by code_simp
  have h7: "''sub/c.txt'' \<in> fst ` set [(''a.txt'', Bytes ''A''), (''sub/c.txt'', Bytes ''C'')]" by simp
  have h8: "isabs ''/out''" by code_simp
  from backup_zip_entries_relative[OF h1 h2 h3 h4 h5 h6 h7] h1 h2 h3 h4 h5 h6 h7 h8
  show ?thesis by blast
qed





text \<open>
  C9. The two modes do not exclude the same files. The zip branch matches each pattern
  against the path joined from the source root, \<open>shutil.ignore_patterns\<close> matches it
  against the bare name. For the tree \<open>{a.txt, b.log, sub/c.txt}\<close> and the exclusions
  \<open>["b.log"]\<close> the archive holds all three files (\<open>/src/b.log\<close> is not matched by
  \<open>b.log\<close>), and the copy holds \<open>a.txt\<close> and \<open>sub/c.txt\<close> only.
\<close>

theorem backup_modes_differ:
  "backup_directory spec_fs [''src''] [''bak''] (Some ''x'') [''b.log''] ''20240101_120000'' 1704110400
     = (Inr (Some ''/bak/src_20240101_120000_x.zip''),
        Dir [(''src'', spec_tree),
             (''bak'', Dir [(''src_20240101_120000_x.zip'',
                File (zip_info 1704110400 [(''a.txt'', Bytes ''A''), (''b.log'', Bytes ''B''), (''sub/c.txt'', Bytes ''C'')]))])])
   \<and> backup_directory spec_fs [''src''] [''bak''] None [''b.log''] ''20240101_120000'' 1704110400
     = (Inr (Some ''/bak/src_20240101_120000''),
        Dir [(''src'', spec_tree),
             (''bak'', Dir [(''src_20240101_120000'',
                Dir [(''a.txt'', plain_file ''A''), (''sub'', Dir [(''c.txt'', plain_file ''C'')])])])])"
  by code_simp

text \<open>
  When a file cannot be read the run stops and returns \<open>None\<close>, but leaving the \<open>with\<close>
  block closes the archive: the file stays in the destination with the entries written
  before the failure. Here \<open>b.log\<close> cannot be read and the archive keeps \<open>a.txt\<close>.
\<close>

definition locked_info :: "string \<Rightarrow> finfo" where
  "locked_info s =
     \<lparr>f_data = Bytes s, f_size = length s, f_mtime = 1000000000, f_readable = False, f_removable = True\<rparr>"

definition locked_file :: "string \<Rightarrow> node" where
  "locked_file s = File (locked_info s)"

definition locked_fs :: node where
  "locked_fs = Dir [(''src'', Dir [(''a.txt'', plain_file ''A''), (''b.log'', locked_file ''B''),
                                   (''sub'', Dir [(''c.txt'', plain_file ''C'')])])]"

theorem backup_zip_partial_counterexample:
  "backup_directory locked_fs [''src''] [''bak''] (Some ''x'') [] ''20240101_120000'' 1704110400
     = (Inr None,
        Dir [(''src'', Dir [(''a.txt'', plain_file ''A''), (''b.log'', locked_file ''B''),
                            (''sub'', Dir [(''c.txt'', plain_file ''C'')])]),
             (''bak'', Dir [(''src_20240101_120000_x.zip'', File (zip_info 1704110400 [(''a.txt'', Bytes ''A'')]))])])"
  by code_simp

text \<open>
  C5, amended. When a file that the walk reaches cannot be read, a zip-mode run stops and
  \<open>backup_directory\<close> returns \<open>None\<close>; the walk reaches a file when neither its joined
  path nor that of a directory above it, below the source root, is excluded. The archive
  file is not removed: an archive stays at the backup path, and it has no entry for the
  file that could not be read. The filesystem is well formed, the destination can be
  created, nothing is at the backup path before the run, and \<open>zip_file\<close> and the
  timestamp hold no separator.
\<close>

theorem backup_zip_read_failure:
  assumes wf: "wf_node fs" and vs: "list_all valid_name source_path" and vd: "list_all valid_name dest_path"
      and vz: "valid_name zip_file" and vt: "sep \<notin> set timestamp"
      and mk: "os_makedirs fs dest_path = Inr fs1"
      and free: "\<not> exists fs (zip_backup_path source_path dest_path zip_file timestamp)"
      and lk: "lookup fs (source_path @ ds @ [f]) = Some (File i)"
      and ur: "\<not> f_readable i"
      and ne: "\<not> excluded exclude_patterns (path_str (source_path @ ds @ [f]))"
      and nd: "\<forall>p. p \<noteq> [] \<and> prefix p ds \<longrightarrow> \<not> excluded exclude_patterns (path_str (source_path @ p))"
  shows "fst (backup_directory fs source_path dest_path (Some zip_file) exclude_patterns timestamp now)
           = Inr None
         \<and> (\<exists>entries.
              archive_at (snd (backup_directory fs source_path dest_path (Some zip_file) exclude_patterns
                                 timestamp now))
                (zip_backup_path source_path dest_path zip_file timestamp) = Some entries
              \<and> join_sep (ds @ [f]) \<notin> fst ` set entries)"
proof -
  let ?bp = "zip_backup_path source_path dest_path zip_file timestamp"
  from zip_backup_path_valid[OF vs vz vt, of dest_path]
  obtain name where vn: "valid_name name" and bp: "?bp = dest_path @ [name]" by blast
  have zne: "zip_file \<noteq> []" using vz by (simp add: valid_name_def)
  have ex: "exists fs source_path"
    using lk by (auto simp: exists_def lookup_append split: option.splits)
  have dd: "is_dir fs1 dest_path" using makedirs_is_dir mk by (simp add: os_makedirs_def)
  have np: "\<not> prefix ?bp dest_path" unfolding bp by (auto simp: prefix_def)
  have free1: "lookup fs1 ?bp = None"
    using makedirs_keeps_none[OF mk[unfolded os_makedirs_def] np] free by (simp add: exists_def)
  then have nd1: "\<not> is_dir fs1 ?bp" by (simp add: is_dir_def)
  from dd obtain es where par: "lookup fs1 (butlast ?bp) = Some (Dir es)"
    by (auto simp: is_dir_iff bp)
  have bpne: "?bp \<noteq> []" by (simp add: bp)
  define fs2 where "fs2 = store ?bp (Some (File (zip_info now []))) fs1"
  have ow: "open_write fs1 ?bp (zip_info now []) = Inr fs2"
    using par nd1 bpne by (simp add: open_write_def fs2_def)
  have lk1: "lookup fs1 (source_path @ ds @ [f]) = Some (File i)"
    using makedirs_keeps_files[OF mk[unfolded os_makedirs_def]] lk by simp
  have npf: "\<not> prefix ?bp (source_path @ ds @ [f])"
  proof
    assume "prefix ?bp (source_path @ ds @ [f])"
    then obtain r where "source_path @ ds @ [f] = ?bp @ r" by (auto simp: prefix_def)
    with lk1 have "lookup fs1 (?bp @ r) = Some (File i)" by simp
    with free1 show False by (simp add: lookup_append)
  qed
  have lk2: "lookup fs2 (source_path @ ds @ [f]) = Some (File i)"
    using lookup_store_other[OF npf] lk1 by (simp add: fs2_def)
  then obtain tree where tr: "lookup fs2 source_path = Some tree"
    and lkt: "lookup tree (ds @ [f]) = Some (File i)"
    by (auto simp: lookup_append split: option.splits)
  have wf1: "wf_node fs1" using wf_makedirs[OF wf vd] mk by (simp add: os_makedirs_def)
  have wf2: "wf_node fs2" unfolding fs2_def using wf1 vn bp by (intro wf_store) auto
  have wft: "wf_node tree" using wf_lookup[OF wf2 tr] .
  obtain err zipf where ze: "zip_entries exclude_patterns source_path tree = (err, zipf)"
    by (cases "zip_entries exclude_patterns source_path tree")
  from zip_entries_fails[OF wft vs lkt ur ne nd] ze obtain e where err: "err = Some e" by auto
  define fs3 where "fs3 = store ?bp (Some (File (zip_info now zipf))) fs2"
  have bz: "backup_zip fs1 source_path ?bp exclude_patterns now = (Inl e, fs3)"
    using ow tr ze err by (simp add: backup_zip_def Let_def fs3_def)
  have body: "backup_body fs source_path dest_path (Some zip_file) exclude_patterns timestamp now = (Inl e, fs3)"
    using ex mk zne bz by (simp add: backup_body_def)
  have run: "backup_directory fs source_path dest_path (Some zip_file) exclude_patterns timestamp now
               = (Inr None, fs3)"
    using body is_Exception_all by (simp add: backup_directory_def)
  have lk2bp: "lookup fs2 ?bp = Some (File (zip_info now []))"
    unfolding fs2_def using lookup_store_new[OF bpne par] .
  have "lookup fs3 ?bp = Some (File (zip_info now zipf))"
    unfolding fs3_def using lookup_store_old[OF bpne lk2bp] by simp
  then have ar: "archive_at fs3 ?bp = Some zipf" by (simp add: archive_at_def zip_info_def)
  have absent: "join_sep (ds @ [f]) \<notin> fst ` set zipf"
  proof
    assume "join_sep (ds @ [f]) \<in> fst ` set zipf"
    then obtain d where "(join_sep (ds @ [f]), d) \<in> set (snd (zip_entries exclude_patterns source_path tree))"
      using ze by auto
    from zip_entries_sound[OF wft vs this]
    obtain ds' f' i' where v: "list_all valid_name (ds' @ [f'])"
      and l': "lookup tree (ds' @ [f']) = Some (File i')"
      and j: "join_sep (ds @ [f]) = join_sep (ds' @ [f'])" and r: "f_readable i'" by blast
    have "ds @ [f] = ds' @ [f']" using join_sep_inj[OF lookup_valid[OF wft lkt] v _ _ j] by simp
    with l' lkt r ur show False by simp
  qed
  from run ar absent show ?thesis by simp
qed

theorem backup_zip_read_failure_witness:
  "wf_node locked_fs \<and> list_all valid_name [''src''] \<and> list_all valid_name [''bak'']
   \<and> valid_name ''x'' \<and> sep \<notin> set ''20240101_120000''
   \<and> os_makedirs locked_fs [''bak'']
       = Inr (Dir [(''src'', Dir [(''a.txt'', plain_file ''A''), (''b.log'', File (locked_info ''B'')),
                                  (''sub'', Dir [(''c.txt'', plain_file ''C'')])]),
                   (''bak'', Dir [])])
   \<and> \<not> exists locked_fs (zip_backup_path [''src''] [''bak''] ''x'' ''20240101_120000'')
   \<and> lookup locked_fs ([''src''] @ [] @ [''b.log'']) = Some (File (locked_info ''B''))
   \<and> \<not> f_readable (locked_info ''B'')
   \<and> \<not> excluded [] (path_str ([''src''] @ [] @ [''b.log'']))
   \<and> fst (backup_directory locked_fs [''src''] [''bak''] (Some ''x'') [] ''20240101_120000'' 1704110400)
       = Inr None
   \<and> archive_at (snd (backup_directory locked_fs [''src''] [''bak''] (Some ''x'') [] ''20240101_120000''
                         1704110400))
       (zip_backup_path [''src''] [''bak''] ''x'' ''20240101_120000'')
       = Some [(''a.txt'', Bytes ''A'')]"
proof -
  have h1: "wf_node locked_fs" by code_simp
  have h2: "list_all valid_name [''src'']" by code_simp
  have h3: "list_all valid_name [''bak'']" by code_simp
  have h4: "valid_name ''x''" by code_simp
  have h5: "sep \<notin> set ''20240101_120000''" by code_simp
  have h6: "os_makedirs locked_fs [''bak'']
       = Inr (Dir [(''src'', Dir [(''a.txt'', plain_file ''A''), (''b.log'', File (locked_info ''B'')),
                                  (''sub'', Dir [(''c.txt'', plain_file ''C'')])]),
                   (''bak'', Dir [])])" by code_simp
  have h7: "\<not> exists locked_fs (zip_backup_path [''src''] [''bak''] ''x'' ''20240101_120000'')" by code_simp
  have h8: "lookup locked_fs ([''src''] @ [] @ [''b.log'']) = Some (File (locked_info ''B''))" by code_simp
  have h9: "\<not> f_readable (locked_info ''B'')" by code_simp
  have h10: "\<not> excluded [] (path_str ([''src''] @ [] @ [''b.log'']))" by code_simp
  have h11: "\<forall>p. p \<noteq> [] \<and> prefix p [] \<longrightarrow> \<not> excluded [] (path_str ([''src''] @ p))" by simp
  have h12: "archive_at (snd (backup_directory locked_fs [''src''] [''bak''] (Some ''x'') [] ''20240101_120000''
                         1704110400))
       (zip_backup_path [''src''] [''bak''] ''x'' ''20240101_120000'')
       = Some [(''a.txt'', Bytes ''A'')]" by code_simp
  from backup_zip_read_failure[OF h1 h2 h3 h4 h5 h6 h7 h8 h9 h10 h11, of 1704110400]
    h1 h2 h3 h4 h5 h6 h7 h8 h9 h10 h12
  show ?thesis by blast
qed

section \<open>Claims on clean_directory\<close>

lemma remove_files_returns: "\<exists>k. fst (remove_files fs ps n) = Inr k"
  by (induction ps arbitrary: fs n) (auto simp: is_Exception_all split: sum.splits)

text \<open>
  A directory for the examples: \<open>now\<close> is 5000000, and the files matching \<open>*.tmp\<close> are
  1, 10, 30, 30 less a second, and 40 days old.
\<close>

definition aged_file :: "string \<Rightarrow> rat \<Rightarrow> node" where
  "aged_file s mtime =
     File \<lparr>f_data = Bytes s, f_size = length s, f_mtime = mtime, f_readable = True, f_removable = True\<rparr>"

definition clean_fs :: node where
  "clean_fs =
     Dir [(''d'', Dir [(''one.tmp'', aged_file ''1'' (5000000 - 1 * 86400)),
                       (''ten.tmp'', aged_file ''22'' (5000000 - 10 * 86400)),
                       (''edge.tmp'', aged_file ''333'' (5000000 - 30 * 86400)),
                       (''near.tmp'', aged_file ''4444'' (5000000 - 30 * 86400 + 1)),
                       (''forty.tmp'', aged_file ''55555'' (5000000 - 40 * 86400)),
                       (''keep.txt'', aged_file ''666666'' (5000000 - 50 * 86400)),
                       (''old.d'', Dir [(''deep.tmp'', aged_file ''7'' 0)])])]"

text \<open>
  C4. For every filesystem, directory, pattern and threshold, the dry run of
  \<open>clean_directory\<close> returns what the live run returns on the same filesystem, and
  leaves the filesystem as it was.
\<close>

theorem clean_dry_run_equivalence:
  "fst (clean_directory fs directory pattern older_than True current_time)
     = fst (clean_directory fs directory pattern older_than False current_time)
   \<and> snd (clean_directory fs directory pattern older_than True current_time) = fs"
proof (cases "\<not> exists fs directory \<or> \<not> is_dir fs directory")
  case True
  then show ?thesis by (auto simp: clean_directory_def clean_body_def)
next
  case False
  show ?thesis
  proof (cases "path_glob fs directory pattern")
    case (Inl e)
    with False show ?thesis by (simp add: clean_directory_def clean_body_def)
  next
    case (Inr matched)
    let ?files = "collect_files fs current_time older_than matched []"
    obtain k where "fst (remove_files fs ?files 0) = Inr k" using remove_files_returns by blast
    then obtain fs' where "remove_files fs ?files 0 = (Inr k, fs')"
      by (cases "remove_files fs ?files 0") auto
    with False Inr show ?thesis by (simp add: clean_directory_def clean_body_def Let_def)
  qed
qed

theorem clean_dry_run_equivalence_witness:
  "fst (clean_directory clean_fs [''d''] ''*.tmp'' (Some 30) True 5000000) = Inr (2, 8)
   \<and> fst (clean_directory clean_fs [''d''] ''*.tmp'' (Some 30) False 5000000) = Inr (2, 8)
   \<and> snd (clean_directory clean_fs [''d''] ''*.tmp'' (Some 30) True 5000000) = clean_fs
   \<and> lookup (snd (clean_directory clean_fs [''d''] ''*.tmp'' (Some 30) False 5000000)) [''d'', ''forty.tmp''] = None"
proof -
  have a: "fst (clean_directory clean_fs [''d''] ''*.tmp'' (Some 30) False 5000000) = Inr (2, 8)" by code_simp
  have b: "lookup (snd (clean_directory clean_fs [''d''] ''*.tmp'' (Some 30) False 5000000)) [''d'', ''forty.tmp''] = None"
    by code_simp
  from clean_dry_run_equivalence[of clean_fs "[''d'']" "''*.tmp''" "Some 30" 5000000] a b
  show ?thesis by simp
qed

section \<open>Claims on the error handling\<close>

text \<open>A clock that shows the same second at every call.\<close>

definition const_clock :: "string \<Rightarrow> nat \<Rightarrow> string" where
  "const_clock timestamp k = timestamp"

text \<open>
  A path that does not exist does not make an operation fail with an error the caller
  sees: each of the three returns its ordinary failure value.
\<close>

theorem missing_path_counterexample:
  "\<not> exists spec_fs [''missing'']
   \<and> backup_directory spec_fs [''missing''] [''bak''] None [] ''20240101_120000'' 1704110400 = (Inr None, spec_fs)
   \<and> clean_directory spec_fs [''missing''] ''*'' None False 5 = (Inr (0, 0), spec_fs)
   \<and> organize_files spec_fs [''missing''] [] (const_clock ''20240101_120000'') = (Inr 0, spec_fs)"
  by code_simp

text \<open>
  C8, amended. When the source of a backup, or the directory to clean or to organize,
  does not exist, the body of the operation raises \<open>FileNotFoundError\<close> before it touches
  the filesystem, and the operation's own handler turns it into the failure value:
  \<open>None\<close>, \<open>(0, 0)\<close> or \<open>0\<close> is returned and the filesystem is unchanged.
\<close>

theorem missing_path_sentinel:
  assumes "\<not> exists fs p"
  shows "backup_body fs p dest_dir zip_file exclude_patterns timestamp now = (Inl FileNotFoundError, fs)
         \<and> backup_directory fs p dest_dir zip_file exclude_patterns timestamp now = (Inr None, fs)
         \<and> clean_body fs p pattern older_than dry_run current_time = (Inl FileNotFoundError, fs)
         \<and> clean_directory fs p pattern older_than dry_run current_time = (Inr (0, 0), fs)
         \<and> organize_body fs p rules clock = (Inl FileNotFoundError, fs)
         \<and> organize_files fs p rules clock = (Inr 0, fs)"
  using assms
  by (simp add: backup_body_def backup_directory_def clean_body_def clean_directory_def
        organize_body_def organize_files_def)

theorem missing_path_sentinel_witness:
  "\<not> exists spec_fs [''missing'']
   \<and> backup_body spec_fs [''missing''] [''bak''] (Some ''x'') [] ''20240101_120000'' 1704110400 = (Inl FileNotFoundError, spec_fs)
   \<and> backup_directory spec_fs [''missing''] [''bak''] (Some ''x'') [] ''20240101_120000'' 1704110400 = (Inr None, spec_fs)
   \<and> clean_body spec_fs [''missing''] ''*'' None False 5 = (Inl FileNotFoundError, spec_fs)
   \<and> clean_directory spec_fs [''missing''] ''*'' None False 5 = (Inr (0, 0), spec_fs)
   \<and> organize_body spec_fs [''missing''] [] (const_clock ''20240101_120000'') = (Inl FileNotFoundError, spec_fs)
   \<and> organize_files spec_fs [''missing''] [] (const_clock ''20240101_120000'') = (Inr 0, spec_fs)"
proof -
  have h: "\<not> exists spec_fs [''missing'']" by code_simp
  from missing_path_sentinel[OF h] h show ?thesis by blast
qed

section \<open>Claims on organize_files\<close>

text \<open>Directories for the examples.\<close>

definition plain_info :: "string \<Rightarrow> finfo" where
  "plain_info s =
     \<lparr>f_data = Bytes s, f_size = length s, f_mtime = 1000000000, f_readable = True, f_removable = True\<rparr>"

definition report_fs :: node where
  "report_fs = Dir [(''d'', Dir [(''report.pdf'', plain_file ''R'')])]"

definition collide_fs :: node where
  "collide_fs =
     Dir [(''d'', Dir [(''report.pdf'', plain_file ''first''), (''todo'', plain_file ''T''),
                       (''Documents'', Dir [(''PDFs'', Dir [(''report.pdf'', plain_file ''zero'')])])])]"

text \<open>
  The timestamped name is not checked before the move, and \<open>os.rename\<close> replaces a file
  at the target. In the first run \<open>report.pdf\<close> meets a file of its name in
  \<open>Documents/PDFs\<close> and becomes \<open>report_20240101_120000.pdf\<close>. A second \<open>report.pdf\<close> is
  then put in the directory and organized within the same second: it takes the same
  timestamped name, and the file of the first run is gone.
\<close>

theorem organize_same_second_counterexample:
  "organize_files collide_fs [''d''] [] (const_clock ''20240101_120000'')
     = (Inr 1,
        Dir [(''d'', Dir [(''todo'', plain_file ''T''), (''Documents'', Dir [(''PDFs'',
               Dir [(''report.pdf'', plain_file ''zero''),
                    (''report_20240101_120000.pdf'', plain_file ''first'')])])])])
   \<and> organize_files
        (Dir [(''d'', Dir [(''todo'', plain_file ''T''), (''Documents'', Dir [(''PDFs'',
                Dir [(''report.pdf'', plain_file ''zero''),
                     (''report_20240101_120000.pdf'', plain_file ''first'')])]),
              (''report.pdf'', plain_file ''second'')])])
        [''d''] [] (const_clock ''20240101_120000'')
     = (Inr 1,
        Dir [(''d'', Dir [(''todo'', plain_file ''T''), (''Documents'', Dir [(''PDFs'',
               Dir [(''report.pdf'', plain_file ''zero''),
                    (''report_20240101_120000.pdf'', plain_file ''second'')])])])])"
  by code_simp

lemma makedirs_existing:
  "is_dir n p \<Longrightarrow> \<exists>n'. makedirs_node p n = Inr n' \<and> (\<forall>q. (lookup n' q = None) = (lookup n q = None))"
proof (induction p n rule: makedirs_node.induct)
  case (1 es)
  then show ?case by simp
next
  case (2 i)
  then show ?case by (simp add: is_dir_def)
next
  case (3 s ss i)
  then show ?case by (simp add: is_dir_def)
next
  case (4 s ss es)
  from "4.prems" obtain c where c: "map_of es s = Some c" and d: "is_dir c ss"
    by (auto simp: is_dir_def split: option.splits)
  from "4.IH" c d obtain c' where c': "makedirs_node ss c = Inr c'"
    and same: "\<forall>q. (lookup c' q = None) = (lookup c q = None)" by auto
  have "(lookup (Dir (put_entry s (Some c') es)) q = None) = (lookup (Dir es) q = None)" for q
  proof (cases q)
    case Nil
    then show ?thesis by simp
  next
    case (Cons x xs)
    with c same show ?thesis by (cases "x = s") (simp_all add: map_of_put_entry)
  qed
  with c c' show ?case by simp
qed

text \<open>
  C6, amended. \<open>organize_file\<close> is the loop body of \<open>organize_files\<close> for one file of the
  listing, \<open>fs\<close> the filesystem when the loop reaches it, \<open>rules\<close> the table in force and
  \<open>folder\<close> the destination of the file's extension, relative or absolute, without a
  \<open>..\<close> component (which \<open>lookup\<close> does not follow). When another file of the same name
  is already in the destination folder, that folder not being the directory itself, and
  no entry has the name \<open><stem>_<timestamp><suffix>\<close> there, the file is moved to that
  name: the earlier file keeps its name and content, both are in the destination folder
  under distinct names, every other file of the filesystem is as it was, and the loop
  goes on with the rest of its listing and one more file counted.
\<close>

theorem organize_collision_renames:
  assumes vn: "valid_name name"
      and src: "lookup fs (dir_path @ [name]) = Some (File moved)"
      and rule: "map_of rules (lstrip_dots (lower (path_suffix name))) = Some folder"
      and nup: "''..'' \<notin> set (pure_parts folder)"
      and other: "path_div dir_path folder \<noteq> dir_path"
      and col: "lookup fs (path_div dir_path folder @ [name]) = Some (File earlier)"
      and ts: "sep \<notin> set (clock tick)"
      and free: "\<not> exists fs (path_div dir_path folder
                                @ [path_stem name @ ''_'' @ clock tick @ path_suffix name])"
  shows "fst (organize_file clock dir_path rules (dir_path @ [name]) fs tick) = Inr (True, Suc tick)
         \<and> lookup (snd (organize_file clock dir_path rules (dir_path @ [name]) fs tick))
              (path_div dir_path folder @ [name]) = Some (File earlier)
         \<and> lookup (snd (organize_file clock dir_path rules (dir_path @ [name]) fs tick))
              (path_div dir_path folder @ [path_stem name @ ''_'' @ clock tick @ path_suffix name])
             = Some (File moved)
         \<and> path_stem name @ ''_'' @ clock tick @ path_suffix name \<noteq> name
         \<and> lookup (snd (organize_file clock dir_path rules (dir_path @ [name]) fs tick))
              (dir_path @ [name]) = None
         \<and> (lookup fs q = Some (File i) \<and> q \<noteq> dir_path @ [name]
              \<longrightarrow> lookup (snd (organize_file clock dir_path rules (dir_path @ [name]) fs tick)) q
                    = Some (File i))
         \<and> organize_loop clock dir_path rules ((dir_path @ [name]) # rest) fs organized_count tick
             = organize_loop clock dir_path rules rest
                 (snd (organize_file clock dir_path rules (dir_path @ [name]) fs tick))
                 (organized_count + 1) (Suc tick)"
proof -
  define df where "df = path_div dir_path folder"
  let ?src = "dir_path @ [name]"
  define s where "s = path_stem name @ ''_'' @ clock tick @ path_suffix name"
  let ?dp = "df @ [name]"
  let ?np = "df @ [s]"
  have vs: "valid_name s" unfolding s_def using stamped_valid[OF vn ts] .
  have sn: "s \<noteq> name" unfolding s_def using stamped_neq .
  have dfn: "df \<noteq> dir_path" using other by (simp add: df_def)
  from col have col0: "lookup fs (df @ [name]) = Some (File earlier)" by (simp add: df_def)
  then obtain n where n: "lookup fs df = Some n" and "lookup n [name] = Some (File earlier)"
    by (auto simp only: lookup_append split: option.splits)
  then have dd0: "is_dir fs df" by (cases n) (auto simp: is_dir_def)
  from makedirs_existing[OF dd0] obtain fs1 where mk: "os_makedirs fs df = Inr fs1"
    and same: "\<forall>q. (lookup fs1 q = None) = (lookup fs q = None)"
    by (auto simp: os_makedirs_def)
  note keep = makedirs_keeps_files[OF mk[unfolded os_makedirs_def]]
  have dd: "is_dir fs1 df" using makedirs_is_dir mk by (simp add: os_makedirs_def)
  have src1: "lookup fs1 ?src = Some (File moved)" using keep src by simp
  have col1: "lookup fs1 ?dp = Some (File earlier)" using keep col0 by simp
  have free1: "\<not> exists fs1 ?np" using free same unfolding s_def df_def by (simp add: exists_def)
  have nd: "\<not> is_dir fs1 ?np" using free1 by (auto simp: exists_def is_dir_def)
  have ne: "?src \<noteq> ?np" using sn by simp
  have bl: "butlast ?np = df" by (simp add: butlast_append)
  have below: "r = []" if "lookup fs1 (?src @ r) = Some y" for r y
    using lookup_below_file[OF src1 that] .
  have ps_dp: "\<not> prefix ?src ?dp"
  proof
    assume "prefix ?src ?dp"
    then obtain r where r: "?dp = ?src @ r" by (auto simp: prefix_def)
    with col1 below[of r] have "r = []" by simp
    with r dfn show False by simp
  qed
  have ps_df: "\<not> prefix ?src df"
  proof
    assume "prefix ?src df"
    then obtain r where r: "df = ?src @ r" by (auto simp: prefix_def)
    from dd obtain es where "lookup fs1 df = Some (Dir es)" by (auto simp: is_dir_iff)
    with r below[of r] have "r = []" "lookup fs1 ?src = Some (Dir es)" by auto
    with src1 show False by simp
  qed
  have ps_np: "\<not> prefix ?src ?np"
  proof
    assume "prefix ?src ?np"
    then obtain r where r: "?np = ?src @ r" by (auto simp: prefix_def)
    with ne have rne: "r \<noteq> []" by auto
    from r have "butlast ?np = butlast (?src @ r)" by (simp only:)
    with bl rne have "df = ?src @ butlast r" by (simp add: butlast_append)
    then have "prefix ?src df" by (rule prefixI)
    with ps_df show False ..
  qed
  have np_src: "\<not> prefix ?np ?src"
  proof
    assume "prefix ?np ?src"
    then obtain r where "?src = ?np @ r" by (auto simp: prefix_def)
    with src1 have "lookup fs1 (?np @ r) = Some (File moved)" by simp
    then have "lookup fs1 ?np \<noteq> None" by (auto simp only: lookup_append split: option.splits)
    with free1 show False by (simp add: exists_def)
  qed
  have np_dp: "\<not> prefix ?np ?dp" using sn by simp
  have is_f: "is_file fs ?src" using src by (simp add: is_file_iff)
  have dst: "path_div df s = ?np" using path_div_valid[OF vs, of df] by simp
  have ex_dp: "exists fs1 ?dp" using col1 by (simp add: exists_def)
  have ex_df: "exists fs1 df" using dd by (auto simp: exists_def is_dir_iff)
  have mv: "shutil_move fs1 ?src ?np = Inr (store ?np (Some (File moved)) (store ?src None fs1))"
    using nd src1 ne ex_df dd sn
    by (auto simp: shutil_move_def os_rename_def bl)
  define fs2 where "fs2 = store ?np (Some (File moved)) (store ?src None fs1)"
  have run: "organize_file clock dir_path rules ?src fs tick = (Inr (True, Suc tick), fs2)"
    using organize_file_ruled_at[OF is_f vn rule, where clock = clock and tick = tick]
      mk ex_dp dst mv
    unfolding s_def df_def fs2_def by simp
  have c2: "lookup fs2 ?dp = Some (File earlier)"
    unfolding fs2_def using lookup_store_other[OF np_dp] lookup_store_other[OF ps_dp] col1 by simp
  from dd lookup_store_other[OF ps_df, of None fs1] obtain es where
    "lookup (store ?src None fs1) df = Some (Dir es)" by (auto simp: is_dir_iff)
  then have "lookup (store ?src None fs1) (butlast ?np) = Some (Dir es)" by (simp only: bl)
  from lookup_store_new[OF _ this] have c3: "lookup fs2 ?np = Some (File moved)"
    unfolding fs2_def by simp
  have c5: "lookup fs2 ?src = None"
    unfolding fs2_def using lookup_store_apart[OF np_src ps_np] lookup_store_None[of ?src fs1] by simp
  have c6: "lookup fs2 q = Some (File i)" if q: "lookup fs q = Some (File i)" "q \<noteq> ?src"
  proof -
    from q keep have q1: "lookup fs1 q = Some (File i)" by simp
    have a: "\<not> prefix ?src q"
    proof
      assume "prefix ?src q"
      then obtain r where "q = ?src @ r" by (auto simp: prefix_def)
      with q1 below[of r] q(2) show False by simp
    qed
    have b: "\<not> prefix ?np q"
    proof
      assume "prefix ?np q"
      then obtain r where "q = ?np @ r" by (auto simp: prefix_def)
      with q1 have "lookup fs1 (?np @ r) = Some (File i)" by simp
      then have "lookup fs1 ?np \<noteq> None" by (auto simp only: lookup_append split: option.splits)
      with free1 show False by (simp add: exists_def)
    qed
    from lookup_store_other[OF b] lookup_store_other[OF a] q1 show ?thesis
      unfolding fs2_def by simp
  qed
  have c7: "organize_loop clock dir_path rules (?src # rest) fs organized_count tick
             = organize_loop clock dir_path rules rest fs2 (organized_count + 1) (Suc tick)"
    using run by simp
  from run c2 c3 sn c5 c6 c7 show ?thesis unfolding s_def df_def by simp
qed

theorem organize_collision_renames_witness:
  "valid_name ''report.pdf''
   \<and> lookup collide_fs ([''d''] @ [''report.pdf'']) = Some (File (plain_info ''first''))
   \<and> map_of default_rules (lstrip_dots (lower (path_suffix ''report.pdf''))) = Some ''Documents/PDFs''
   \<and> ''..'' \<notin> set (pure_parts ''Documents/PDFs'')
   \<and> path_div [''d''] ''Documents/PDFs'' \<noteq> [''d'']
   \<and> lookup collide_fs (path_div [''d''] ''Documents/PDFs'' @ [''report.pdf''])
       = Some (File (plain_info ''zero''))
   \<and> sep \<notin> set (const_clock ''20240101_120000'' 0)
   \<and> \<not> exists collide_fs (path_div [''d''] ''Documents/PDFs'' @ [path_stem ''report.pdf'' @ ''_'' @ const_clock ''20240101_120000'' 0 @ path_suffix ''report.pdf''])
   \<and> fst (organize_file (const_clock ''20240101_120000'') [''d''] default_rules ([''d''] @ [''report.pdf'']) collide_fs 0) = Inr (True, Suc 0)
   \<and> lookup (snd (organize_file (const_clock ''20240101_120000'') [''d''] default_rules ([''d''] @ [''report.pdf'']) collide_fs 0)) (path_div [''d''] ''Documents/PDFs'' @ [''report.pdf''])
       = Some (File (plain_info ''zero''))
   \<and> lookup (snd (organize_file (const_clock ''20240101_120000'') [''d''] default_rules ([''d''] @ [''report.pdf'']) collide_fs 0)) (path_div [''d''] ''Documents/PDFs'' @ [path_stem ''report.pdf'' @ ''_'' @ const_clock ''20240101_120000'' 0 @ path_suffix ''report.pdf''])
       = Some (File (plain_info ''first''))
   \<and> path_stem ''report.pdf'' @ ''_'' @ const_clock ''20240101_120000'' 0 @ path_suffix ''report.pdf'' \<noteq> ''report.pdf''
   \<and> lookup (snd (organize_file (const_clock ''20240101_120000'') [''d''] default_rules ([''d''] @ [''report.pdf'']) collide_fs 0)) ([''d''] @ [''report.pdf'']) = None
   \<and> lookup collide_fs [''d'', ''todo''] = Some (File (plain_info ''T''))
   \<and> [''d'', ''todo''] \<noteq> [''d''] @ [''report.pdf'']
   \<and> lookup (snd (organize_file (const_clock ''20240101_120000'') [''d''] default_rules ([''d''] @ [''report.pdf'']) collide_fs 0)) [''d'', ''todo''] = Some (File (plain_info ''T''))
   \<and> path_stem ''report.pdf'' @ ''_'' @ const_clock ''20240101_120000'' 0 @ path_suffix ''report.pdf'' = ''report_20240101_120000.pdf''
   \<and> path_div [''d''] ''Documents/PDFs'' = [''d'', ''Documents'', ''PDFs'']"
proof -
  have h1: "valid_name ''report.pdf''" by code_simp
  have h2: "lookup collide_fs ([''d''] @ [''report.pdf'']) = Some (File (plain_info ''first''))"
    by code_simp
  have h3: "map_of default_rules (lstrip_dots (lower (path_suffix ''report.pdf''))) = Some ''Documents/PDFs''"
    by code_simp
  have h4: "''..'' \<notin> set (pure_parts ''Documents/PDFs'')" by code_simp
  have h5: "path_div [''d''] ''Documents/PDFs'' \<noteq> [''d'']" by code_simp
  have h6: "lookup collide_fs (path_div [''d''] ''Documents/PDFs'' @ [''report.pdf''])
       = Some (File (plain_info ''zero''))" by code_simp
  have h7: "sep \<notin> set (const_clock ''20240101_120000'' 0)" by code_simp
  have h8: "\<not> exists collide_fs (path_div [''d''] ''Documents/PDFs'' @ [path_stem ''report.pdf'' @ ''_'' @ const_clock ''20240101_120000'' 0 @ path_suffix ''report.pdf''])"
    by code_simp
  have e: "path_stem ''report.pdf'' @ ''_'' @ const_clock ''20240101_120000'' 0 @ path_suffix ''report.pdf'' = ''report_20240101_120000.pdf''" by code_simp
  have d: "path_div [''d''] ''Documents/PDFs'' = [''d'', ''Documents'', ''PDFs'']" by code_simp
  have q1: "lookup collide_fs [''d'', ''todo''] = Some (File (plain_info ''T''))" by code_simp
  have q2: "[''d'', ''todo''] \<noteq> [''d''] @ [''report.pdf'']" by simp
  from organize_collision_renames[where clock = "const_clock ''20240101_120000''" and tick = 0
         and q = "[''d'', ''todo'']" and i = "plain_info ''T''", OF h1 h2 h3 h4 h5 h6 h7 h8]
    h1 h2 h3 h4 h5 h6 h7 h8 e d q1 q2
  show ?thesis by blast
qed

text \<open>
  With a rule whose destination is the directory itself the file is renamed in place,
  and the next run finds it again: the second run moves one more file.
\<close>

theorem organize_in_place_counterexample:
  "organize_files report_fs [''d''] [(''pdf'', ''.'')] (const_clock ''20240101_120000'')
     = (Inr 1, Dir [(''d'', Dir [(''report_20240101_120000.pdf'', plain_file ''R'')])])
   \<and> organize_files (Dir [(''d'', Dir [(''report_20240101_120000.pdf'', plain_file ''R'')])])
        [''d''] [(''pdf'', ''.'')] (const_clock ''20240102_090000'')
     = (Inr 1, Dir [(''d'', Dir [(''report_20240101_120000_20240102_090000.pdf'', plain_file ''R'')])])"
  by code_simp

text \<open>
  C7, amended. When every destination of the rule table is a folder below the directory
  (as in the default table) and a run of \<open>organize_files\<close> ends without an error, a second
  run on the same directory moves no file and leaves the filesystem as it is: no file
  with a ruled extension is left among the children of the directory, and the listing is
  not recursive. The filesystem is well formed. So after \<open>report.pdf\<close> has gone to
  \<open>Documents/PDFs/report.pdf\<close>, organizing again moves nothing.
\<close>

theorem organize_twice:
  assumes wf: "wf_node fs" and pr: "proper_rules rules"
      and run: "organize_body fs dir_path rules clock = (Inr moved, fs')"
  shows "organize_files fs' dir_path rules clock' = (Inr 0, fs')"
proof -
  let ?R = "if rules = [] then default_rules else rules"
  let ?L = "map (\<lambda>e. dir_path @ [fst e]) (scandir fs dir_path)"
  have prR: "proper_rules ?R" using pr proper_default by simp
  from run have lp: "organize_loop clock dir_path ?R ?L fs 0 0 = (Inr moved, fs')"
    by (auto simp: organize_body_def glob_star Let_def split: if_splits)
  have unruled: "\<forall>p\<in>set (map (\<lambda>e. dir_path @ [fst e]) (scandir fs' dir_path)).
                   is_file fs' p \<longrightarrow> map_of ?R ((lstrip_dots (lower (path_suffix (path_name p))))) = None"
  proof (intro ballI impI)
    fix p assume "p \<in> set (map (\<lambda>e. dir_path @ [fst e]) (scandir fs' dir_path))" and f: "is_file fs' p"
    then obtain x where p: "p = dir_path @ [x]" by auto
    from organize_loop_top[OF lp prR listing_valid[OF wf] f[unfolded p]]
    have a: "is_file fs (dir_path @ [x])" and b: "dir_path @ [x] \<in> set ?L \<longrightarrow> map_of ?R ((lstrip_dots (lower (path_suffix x)))) = None"
      by auto
    from top_file_listed[OF a] have "dir_path @ [x] \<in> set ?L" by auto
    with b p show "map_of ?R ((lstrip_dots (lower (path_suffix (path_name p))))) = None" by (simp add: path_name_def)
  qed
  show ?thesis
  proof (cases "\<not> exists fs' dir_path \<or> \<not> is_dir fs' dir_path")
    case True
    then show ?thesis by (auto simp: organize_files_def organize_body_def)
  next
    case False
    have "organize_loop clock' dir_path ?R (map (\<lambda>e. dir_path @ [fst e]) (scandir fs' dir_path)) fs' 0 0
            = (Inr 0, fs')"
      using unruled by (rule organize_loop_nothing)
    with False have "organize_body fs' dir_path rules clock' = (Inr 0, fs')"
      by (cases "rules = []") (simp_all add: organize_body_def glob_star Let_def)
    then show ?thesis by (simp add: organize_files_def)
  qed
qed

theorem organize_twice_witness:
  "wf_node report_fs \<and> proper_rules []
   \<and> organize_body report_fs [''d''] [] (const_clock ''20240101_120000'') = (Inr 1, Dir [(''d'', Dir [(''Documents'', Dir [(''PDFs'', Dir [(''report.pdf'', plain_file ''R'')])])])])
   \<and> organize_files (Dir [(''d'', Dir [(''Documents'', Dir [(''PDFs'', Dir [(''report.pdf'', plain_file ''R'')])])])]) [''d''] [] (const_clock ''20240102_090000'') = (Inr 0, Dir [(''d'', Dir [(''Documents'', Dir [(''PDFs'', Dir [(''report.pdf'', plain_file ''R'')])])])])"
proof -
  have h1: "wf_node report_fs" by code_simp
  have h2: "proper_rules []" by code_simp
  have h3: "organize_body report_fs [''d''] [] (const_clock ''20240101_120000'') = (Inr 1, Dir [(''d'', Dir [(''Documents'', Dir [(''PDFs'', Dir [(''report.pdf'', plain_file ''R'')])])])])"
    by code_simp
  from organize_twice[OF h1 h2 h3, where clock' = "const_clock ''20240102_090000''"] h1 h2 h3
  show ?thesis by blast
qed

end
